theory Spec2Isabelle
  imports Main "HOL-Library.Sublist"
begin

section \<open>Python strings\<close>

text \<open>
  A Python \<open>str\<close> is modelled as a \<open>string\<close>: a list of characters, one \<open>char\<close> per code
  point, for the code points below 256. Lengths and slices count characters, as Python's do.
  \<open>None\<close> is the \<open>None\<close> of an \<open>option\<close>.
\<close>

definition isspace :: "char \<Rightarrow> bool" where
  \<comment> \<open>\<open>str.isspace\<close> on one character: what \<open>strip()\<close> and \<open>split()\<close> treat as whitespace.\<close>
  "isspace c = (c \<in> set [CHR 0x09, CHR 0x0A, CHR 0x0B, CHR 0x0C, CHR 0x0D,
                           CHR 0x1C, CHR 0x1D, CHR 0x1E, CHR 0x1F, CHR 0x20,
                           CHR 0x85, CHR 0xA0])"

definition isdigit :: "char \<Rightarrow> bool" where
  \<comment> \<open>what the regular expression \<open>\d\<close> matches\<close>
  "isdigit c = (c \<in> set ''0123456789'')"

definition lower_char :: "char \<Rightarrow> char" where
  "lower_char c =
     (let n = (of_char c :: nat)
      in if (65 \<le> n \<and> n \<le> 90) \<or> (192 \<le> n \<and> n \<le> 222 \<and> n \<noteq> 215)
         then char_of (n + 32) else c)"

definition lower :: "string \<Rightarrow> string" where
  \<comment> \<open>\<open>s.lower()\<close>\<close>
  "lower s = map lower_char s"

definition strip :: "string \<Rightarrow> string" where
  \<comment> \<open>\<open>s.strip()\<close>\<close>
  "strip s = rev (dropWhile isspace (rev (dropWhile isspace s)))"

definition startswith :: "string \<Rightarrow> string \<Rightarrow> bool" where
  \<comment> \<open>\<open>s.startswith(p)\<close>\<close>
  "startswith s p = (take (length p) s = p)"

fun split_acc :: "char \<Rightarrow> string \<Rightarrow> string \<Rightarrow> string list" where
  "split_acc sep w [] = [w]"
| "split_acc sep w (c # cs) =
     (if c = sep then w # split_acc sep [] cs else split_acc sep (w @ [c]) cs)"

definition split :: "string \<Rightarrow> char \<Rightarrow> string list" where
  \<comment> \<open>\<open>s.split(sep)\<close> for a separator of one character; never the empty list\<close>
  "split s sep = split_acc sep [] s"

fun split_ws_acc :: "string \<Rightarrow> string \<Rightarrow> string list" where
  "split_ws_acc w [] = (if w = [] then [] else [w])"
| "split_ws_acc w (c # cs) =
     (if isspace c then (if w = [] then split_ws_acc [] cs else w # split_ws_acc [] cs)
      else split_ws_acc (w @ [c]) cs)"

definition split_ws :: "string \<Rightarrow> string list" where
  \<comment> \<open>\<open>s.split()\<close>: the maximal runs of non-whitespace characters\<close>
  "split_ws s = split_ws_acc [] s"

fun join :: "string \<Rightarrow> string list \<Rightarrow> string" where
  \<comment> \<open>\<open>sep.join(xs)\<close>\<close>
  "join sep [] = []"
| "join sep [x] = x"
| "join sep (x # y # ys) = x @ sep @ join sep (y # ys)"

function replace :: "string \<Rightarrow> string \<Rightarrow> string \<Rightarrow> string" where
  \<comment> \<open>\<open>s.replace(old, new)\<close>: every occurrence, found left to right without overlap\<close>
  "replace s old new =
     (if old = [] then new @ concat (map (\<lambda>c. c # new) s)
      else if s = [] then []
      else if startswith s old then new @ replace (drop (length old) s) old new
      else hd s # replace (tl s) old new)"
  by pat_completeness auto
termination
  by (relation "measure (\<lambda>(s, old, new). length s)") auto

declare replace.simps [simp del]

definition contains :: "string \<Rightarrow> string \<Rightarrow> bool" where
  \<comment> \<open>\<open>sub in s\<close>\<close>
  "contains s sub = (\<exists>k \<in> set (upt 0 (Suc (length s))). startswith (drop k s) sub)"

fun findall_digits_acc :: "string \<Rightarrow> string \<Rightarrow> string list" where
  "findall_digits_acc w [] = (if w = [] then [] else [w])"
| "findall_digits_acc w (c # cs) =
     (if isdigit c then findall_digits_acc (w @ [c]) cs
      else if w = [] then findall_digits_acc [] cs else w # findall_digits_acc [] cs)"

definition findall_digits :: "string \<Rightarrow> string list" where
  \<comment> \<open>\<open>re.findall(r'\d+', s)\<close>: the maximal runs of digits, left to right\<close>
  "findall_digits s = findall_digits_acc [] s"

datatype py_exception =
    ValueError   \<comment> \<open>\<open>int()\<close> on more digits than the interpreter's limit\<close>
  | IndexError   \<comment> \<open>a list index out of range\<close>
  | OverflowError  \<comment> \<open>an \<open>int\<close> bound to a query that is not a 64-bit SQLite INTEGER\<close>
  | Raised string  \<comment> \<open>raised by a library or I/O call; the string is \<open>str(e)\<close>\<close>

definition digit_val :: "char \<Rightarrow> int" where
  "digit_val c = int (of_char c) - 48"

definition int_py :: "nat \<Rightarrow> string \<Rightarrow> py_exception + int" where
  \<comment> \<open>\<open>int(s)\<close> on a run of decimal digits. \<open>max_str_digits\<close> is the interpreter's
      \<open>sys.get_int_max_str_digits()\<close>: 0 is no limit, otherwise a longer input raises.\<close>
  "int_py max_str_digits s =
     (if 0 < max_str_digits \<and> max_str_digits < length s then Inl ValueError
      else Inr (foldl (\<lambda>a c. 10 * a + digit_val c) 0 s))"

fun str_nat :: "nat \<Rightarrow> string" where
  \<comment> \<open>\<open>str(n)\<close> for \<open>n \<ge> 0\<close>\<close>
  "str_nat n =
     (if n < 10 then [''0123456789'' ! n]
      else str_nat (n div 10) @ [''0123456789'' ! (n mod 10)])"

declare str_nat.simps [simp del]

definition endswith :: "string \<Rightarrow> string \<Rightarrow> bool" where
  \<comment> \<open>\<open>s.endswith(p)\<close>\<close>
  "endswith s p = (length p \<le> length s \<and> drop (length s - length p) s = p)"

type_synonym code_points = "nat list"

definition codes :: "string \<Rightarrow> code_points" where
  \<comment> \<open>the code points of a string\<close>
  "codes s = map of_char s"

definition title_char :: "char \<Rightarrow> code_points" where
  \<comment> \<open>the title case of one character, which for \<open>0xDF\<close> is two letters and for \<open>0xB5\<close>
      and \<open>0xFF\<close> a code point beyond 255\<close>
  "title_char c =
     (let n = (of_char c :: nat)
      in if n = 223 then [83, 115]
         else if n = 181 then [924]
         else if n = 255 then [376]
         else if (97 \<le> n \<and> n \<le> 122) \<or> (224 \<le> n \<and> n \<le> 254 \<and> n \<noteq> 247) then [n - 32]
         else [n])"

definition is_cased :: "char \<Rightarrow> bool" where
  "is_cased c =
     (let n = (of_char c :: nat)
      in (65 \<le> n \<and> n \<le> 90) \<or> (97 \<le> n \<and> n \<le> 122) \<or> n = 170 \<or> n = 181 \<or> n = 186 \<or>
         (192 \<le> n \<and> n \<le> 214) \<or> (216 \<le> n \<and> n \<le> 246) \<or> (248 \<le> n \<and> n \<le> 255))"

fun title_acc :: "bool \<Rightarrow> string \<Rightarrow> code_points" where
  "title_acc previous_is_cased [] = []"
| "title_acc previous_is_cased (c # cs) =
     (if previous_is_cased then [of_char (lower_char c)] else title_char c) @
     title_acc (is_cased c) cs"

definition title_py :: "string \<Rightarrow> code_points" where
  \<comment> \<open>\<open>s.title()\<close>: a letter after a letter is lowered, any other letter is put in title
      case. The result can leave the code points below 256, so it is a list of code points.\<close>
  "title_py s = title_acc False s"

definition index :: "'a list \<Rightarrow> nat \<Rightarrow> py_exception + 'a" where
  \<comment> \<open>\<open>xs[i]\<close> for \<open>i \<ge> 0\<close>\<close>
  "index xs i = (if i < length xs then Inr (xs ! i) else Inl IndexError)"

definition truthy :: "string option \<Rightarrow> bool" where
  \<comment> \<open>the truth value of a \<open>str\<close> or \<open>None\<close>: \<open>if s:\<close>\<close>
  "truthy s = (case s of None \<Rightarrow> False | Some t \<Rightarrow> t \<noteq> [])"

section \<open>The email analyzer\<close>

definition generic_domains :: "string list" where
  "generic_domains = [''gmail.com'', ''yahoo.com'', ''hotmail.com'', ''outlook.com'', ''aol.com'']"

definition analyze_email_body :: "string \<Rightarrow> string option \<Rightarrow> py_exception + string" where
  \<comment> \<open>the body of the \<open>try\<close> in \<open>analyze_email_domain\<close>\<close>
  "analyze_email_body email website =
     (case index (split email CHR ''@'') 1 of
        Inl e \<Rightarrow> Inl e
      | Inr d \<Rightarrow>
          (let email_domain = lower d
           in if email_domain \<in> set generic_domains
              then Inr (''Generic email domain ('' @ email_domain @ '') - less professional'')
              else if truthy website \<and> website \<noteq> Some ''nan''
              then (case index (split (replace (replace (replace (the website)
                                   ''http://'' []) ''https://'' []) ''www.'' []) CHR ''/'') 0 of
                      Inl e \<Rightarrow> Inl e
                    | Inr w \<Rightarrow>
                        (let website_clean = lower w
                         in if contains website_clean email_domain \<or>
                               contains email_domain website_clean
                            then Inr (''Professional email - domain matches website ('' @
                                      email_domain @ '')'')
                            else Inr (''Email domain ('' @ email_domain @
                                      '') doesn't match website'')))
              else Inr (''Professional email domain ('' @ email_domain @ '')'')))"

definition analyze_email_domain :: "string option \<Rightarrow> string option \<Rightarrow> string" where
  "analyze_email_domain email website =
     (if \<not> truthy email \<or> email = Some ''nan'' then ''No email provided''
      else (case analyze_email_body (the email) website of
              Inl e \<Rightarrow> ''Invalid email format''
            | Inr msg \<Rightarrow> msg))"

section \<open>The website summarizer\<close>

text \<open>
  What \<open>requests\<close> and \<open>BeautifulSoup\<close> hand to \<open>fetch_website_content\<close> for one URL:
  the page text after the boilerplate tags are removed and the whitespace is normalised,
  \<open>soup.title.string\<close> (\<open>None\<close> when the tag holds no single string, the empty string
  when there is no title tag), the content of the
  description meta tag (the empty string when there is none), and for each heading that
  names a keyword the joined text of its next siblings. The request and the parse are
  outside the repository: they are a parameter, whose \<open>Inl\<close> is an exception raised
  anywhere in them, as its \<open>str(e)\<close>.
\<close>

record page =
  page_text :: string
  page_title :: "string option"
  page_meta_desc :: string
  page_sections :: "string list"

type_synonym http = "string \<Rightarrow> string + page"

record summary =
  title :: string
  meta_description :: string
  key_sections :: string
  full_text_sample :: string
  has_content :: bool
  url_analyzed :: string

datatype website_analysis =
    Summary summary
  | Error string string  \<comment> \<open>the keys \<open>error\<close> and \<open>url_analyzed\<close>\<close>

definition normalize_url :: "string \<Rightarrow> string" where
  "normalize_url url =
     (if \<not> (startswith url ''http://'' \<or> startswith url ''https://'')
      then ''https://'' @ url else url)"

definition summarize :: "string \<Rightarrow> page \<Rightarrow> summary" where
  "summarize url p =
     \<lparr>title = (if truthy (page_title p) then take 200 (the (page_title p)) else []),
      meta_description = (if page_meta_desc p \<noteq> [] then take 300 (page_meta_desc p) else []),
      key_sections =
        take 1000 (join '' '' (map (take 500) (filter (\<lambda>t. t \<noteq> []) (page_sections p)))),
      full_text_sample = take 1500 (page_text p),
      has_content = (100 < length (page_text p)),
      url_analyzed = url\<rparr>"

definition fetch_website_content :: "http \<Rightarrow> string option \<Rightarrow> website_analysis option" where
  "fetch_website_content get url =
     (if \<not> truthy url \<or> url = Some ''nan'' \<or> url = Some [] then None
      else (let url' = normalize_url (the url)
            in case get url' of
                 Inl e \<Rightarrow> Some (Error (''Could not fetch website: '' @ e) url')
               | Inr p \<Rightarrow> Some (Summary (summarize url' p))))"

section \<open>The leads table (models.py)\<close>

record lead =
  id_col :: int
  company_name :: "string option"
  industry :: "string option"
  location :: "string option"
  contact_name :: "code_points option"  \<comment> \<open>written by \<open>str.title()\<close>\<close>
  contact_email :: "string option"
  contact_phone :: "string option"
  revenue :: "string option"
  employees :: "string option"
  website :: "string option"
  notes_col :: "string option"
  ai_score :: "int option"
  ai_justification :: "string option"
  ai_next_action :: "string option"

text \<open>The table is the list of its rows; a commit replaces the table.\<close>

type_synonym db = "lead list"

definition bind_int :: "int \<Rightarrow> py_exception + int" where
  \<comment> \<open>an \<open>int\<close> as the parameter of a query: SQLite takes 64-bit integers, and the driver
      raises on any other\<close>
  "bind_int i = (if - (2 ^ 63) \<le> i \<and> i < 2 ^ 63 then Inr i else Inl OverflowError)"

section \<open>The response parser\<close>

fun absorb_justification :: "string \<Rightarrow> string list \<Rightarrow> string" where
  \<comment> \<open>the inner loop over \<open>lines[i+1:]\<close> after a \<open>JUSTIFICATION:\<close> line\<close>
  "absorb_justification j [] = j"
| "absorb_justification j (next_line # ls) =
     (if startswith next_line ''NEXT_ACTION:'' then j
      else absorb_justification (j @ '' '' @ strip next_line) ls)"

fun absorb_next_action :: "string \<Rightarrow> string list \<Rightarrow> string" where
  \<comment> \<open>the inner loop over \<open>lines[i+1:]\<close> after a \<open>NEXT_ACTION:\<close> line\<close>
  "absorb_next_action n [] = n"
| "absorb_next_action n (next_line # ls) =
     absorb_next_action (n @ '' '' @ strip next_line) ls"

fun scan_lines ::
  "nat \<Rightarrow> string list \<Rightarrow> int option \<times> string \<times> string \<Rightarrow>
   py_exception + (int option \<times> string \<times> string)" where
  \<comment> \<open>the loop \<open>for i, line in enumerate(lines)\<close>, on the lines from \<open>i\<close> on, with the
      values of \<open>score\<close>, \<open>justification\<close> and \<open>next_action\<close> so far\<close>
  "scan_lines lim [] st = Inr st"
| "scan_lines lim (line # ls) (score, justification, next_action) =
     (if startswith line ''SCORE:'' then
        (case findall_digits (strip (replace line ''SCORE:'' [])) of
           [] \<Rightarrow> scan_lines lim ls (score, justification, next_action)
         | number # _ \<Rightarrow>
             (case int_py lim number of
                Inl e \<Rightarrow> Inl e
              | Inr v \<Rightarrow> scan_lines lim ls (Some v, justification, next_action)))
      else if startswith line ''JUSTIFICATION:'' then
        scan_lines lim ls
          (score, absorb_justification (strip (replace line ''JUSTIFICATION:'' [])) ls,
           next_action)
      else if startswith line ''NEXT_ACTION:'' then
        scan_lines lim ls
          (score, justification,
           absorb_next_action (strip (replace line ''NEXT_ACTION:'' [])) ls)
      else scan_lines lim ls (score, justification, next_action))"

definition response_lines :: "string \<Rightarrow> string list" where
  \<comment> \<open>\<open>response_text.strip().split('\n')\<close>\<close>
  "response_lines response_text = split (strip response_text) CHR 0x0A"

definition collapse :: "string \<Rightarrow> string" where
  \<comment> \<open>\<open>' '.join(s.split())\<close>\<close>
  "collapse s = join '' '' (split_ws s)"

definition parse_response :: "nat \<Rightarrow> string \<Rightarrow> py_exception + (int \<times> string \<times> string)" where
  \<comment> \<open>lines 452 to 485 of \<open>score_lead\<close>: the score, the justification, the next action\<close>
  "parse_response lim response_text =
     (case scan_lines lim (response_lines response_text) (None, [], []) of
        Inl e \<Rightarrow> Inl e
      | Inr (score, justification, next_action) \<Rightarrow>
          (let score = (case score of None \<Rightarrow> 50 | Some v \<Rightarrow> v);
               justification = (if justification = [] then take 400 response_text
                                else justification);
               next_action = (if next_action = []
                              then ''Review lead and determine outreach strategy''
                              else next_action)
           in Inr (max 0 (min 100 score),
                   take 500 (collapse justification),
                   take 300 (collapse next_action))))"

section \<open>POST /leads/{lead_id}/score\<close>

text \<open>
  The prompt is a fixed template around the values below: it is determined by them, and
  is modelled by them. The model call, with the reading of \<open>message.content[0].text\<close>,
  is a parameter from the prompt to the response text, or to the \<open>str(e)\<close> of the
  exception raised.

  The endpoints print to the console, inside their \<open>try\<close> blocks and in their
  \<open>except\<close> branches. A \<open>print\<close> can raise (a closed stream, a console that cannot
  encode a character), so the console is a parameter too: for each place that prints,
  whether it raises there, and with which \<open>str(e)\<close>.
\<close>

datatype print_site =
    Print_lead            \<comment> \<open>\<open>score_lead\<close>, lines 325 to 327\<close>
  | Print_website         \<comment> \<open>line 330\<close>
  | Print_website_result  \<comment> \<open>lines 333 to 340\<close>
  | Print_email           \<comment> \<open>line 343\<close>
  | Print_analysis        \<comment> \<open>line 345\<close>
  | Print_calling         \<comment> \<open>line 439\<close>
  | Print_response        \<comment> \<open>line 449\<close>
  | Print_final           \<comment> \<open>lines 493 and 494, after the commit\<close>
  | Print_error           \<comment> \<open>lines 506 and 507, in the \<open>except\<close> branch\<close>
  | Print_rows            \<comment> \<open>\<open>upload_csv\<close>, lines 179 to 181\<close>
  | Print_first_row       \<comment> \<open>lines 184 to 191\<close>
  | Print_added           \<comment> \<open>line 225, after the commit\<close>
  | Print_upload_error    \<comment> \<open>lines 234 and 235, in the \<open>except\<close> branch\<close>

fun first_error :: "(print_site \<Rightarrow> string option) \<Rightarrow> print_site list \<Rightarrow> string option" where
  \<comment> \<open>the prints of some places in a row: the first that raises, if one does\<close>
  "first_error console [] = None"
| "first_error console (site # sites) =
     (case console site of Some e \<Rightarrow> Some e | None \<Rightarrow> first_error console sites)"

record prompt =
  prompt_company :: "string option"
  prompt_industry :: "string option"
  prompt_location :: "string option"
  prompt_contact :: "code_points option"
  prompt_email :: "string option"
  prompt_website :: "string option"
  prompt_email_analysis :: string
  prompt_website_analysis :: "website_analysis option"

definition build_prompt :: "lead \<Rightarrow> string \<Rightarrow> website_analysis option \<Rightarrow> prompt" where
  "build_prompt lead email_analysis website_analysis =
     \<lparr>prompt_company = company_name lead, prompt_industry = industry lead,
      prompt_location = location lead, prompt_contact = contact_name lead,
      prompt_email = contact_email lead, prompt_website = website lead,
      prompt_email_analysis = email_analysis,
      prompt_website_analysis = website_analysis\<rparr>"

record env =
  api_key :: "string option"  \<comment> \<open>\<open>os.getenv("ANTHROPIC_API_KEY")\<close>\<close>
  http_get :: http
  model_call :: "prompt \<Rightarrow> string + string"
  max_str_digits :: nat  \<comment> \<open>\<open>sys.get_int_max_str_digits()\<close>, 0 for no limit\<close>
  commit_error :: "string option"
    \<comment> \<open>\<open>Some\<close> when \<open>db.commit()\<close> raises; the transaction is then rolled back\<close>
  console :: "print_site \<Rightarrow> string option"

datatype detail =
    Detail string
  | Detail_exc string py_exception  \<comment> \<open>the prefix followed by \<open>str(e)\<close>\<close>

datatype http_error =
    HTTPException nat detail
  | Unhandled py_exception
      \<comment> \<open>an exception no handler catches: the server answers 500 Internal Server Error\<close>

record score_response =
  lead_id :: int
  score :: int
  justification :: string
  next_action :: string
  website_analyzed :: bool

definition is_summary :: "website_analysis option \<Rightarrow> bool" where
  \<comment> \<open>\<open>website_analysis is not None and 'error' not in website_analysis\<close>\<close>
  "is_summary w = (case w of Some (Summary s) \<Rightarrow> True | _ \<Rightarrow> False)"

definition set_ai_fields :: "int \<Rightarrow> int \<Rightarrow> string \<Rightarrow> string \<Rightarrow> db \<Rightarrow> db" where
  \<comment> \<open>the update of the row with the lead's primary key that the commit writes\<close>
  "set_ai_fields i s j n db =
     map (\<lambda>l. if id_col l = i
               then l\<lparr>ai_score := Some s, ai_justification := Some j, ai_next_action := Some n\<rparr>
               else l) db"

definition score_lead_try :: "env \<Rightarrow> lead \<Rightarrow> py_exception + (int \<times> string \<times> string \<times> bool)" where
  \<comment> \<open>lines 325 to 485, the \<open>try\<close> block up to the parsed values; the last component is
      \<open>website_analyzed\<close>\<close>
  "score_lead_try env lead =
     (case first_error (console env) [Print_lead, Print_website] of
        Some e \<Rightarrow> Inl (Raised e)
      | None \<Rightarrow>
          (let website_analysis = fetch_website_content (http_get env) (website lead)
           in case first_error (console env) [Print_website_result, Print_email] of
                Some e \<Rightarrow> Inl (Raised e)
              | None \<Rightarrow>
                  (let email_analysis =
                         analyze_email_domain (contact_email lead) (website lead)
                   in case first_error (console env) [Print_analysis, Print_calling] of
                        Some e \<Rightarrow> Inl (Raised e)
                      | None \<Rightarrow>
                          (case model_call env
                                  (build_prompt lead email_analysis website_analysis) of
                             Inl e \<Rightarrow> Inl (Raised e)
                           | Inr response_text \<Rightarrow>
                               (case first_error (console env) [Print_response] of
                                  Some e \<Rightarrow> Inl (Raised e)
                                | None \<Rightarrow>
                                    (case parse_response (max_str_digits env)
                                            response_text of
                                       Inl e \<Rightarrow> Inl e
                                     | Inr (s, j, n) \<Rightarrow>
                                         Inr (s, j, n, is_summary website_analysis)))))))"

definition score_lead_body ::
  "env \<Rightarrow> db \<Rightarrow> lead \<Rightarrow> (py_exception + score_response) \<times> db" where
  \<comment> \<open>the body of the \<open>try\<close> in \<open>score_lead\<close>, with the table it leaves: the prints of
      lines 493 and 494 come after the commit\<close>
  "score_lead_body env db lead =
     (case score_lead_try env lead of
        Inl e \<Rightarrow> (Inl e, db)
      | Inr (s, j, n, analyzed) \<Rightarrow>
          (case commit_error env of
             Some e \<Rightarrow> (Inl (Raised e), db)
           | None \<Rightarrow>
               (let db' = set_ai_fields (id_col lead) s j n db
                in case first_error (console env) [Print_final] of
                     Some e \<Rightarrow> (Inl (Raised e), db')
                   | None \<Rightarrow>
                       (Inr \<lparr>lead_id = id_col lead, score = s, justification = j,
                             next_action = n, website_analyzed = analyzed\<rparr>, db'))))"

definition scoring_failed :: "env \<Rightarrow> py_exception \<Rightarrow> http_error" where
  \<comment> \<open>the \<open>except\<close> branch of \<open>score_lead\<close>: it prints, then raises the 500\<close>
  "scoring_failed env e =
     (case first_error (console env) [Print_error] of
        Some e' \<Rightarrow> Unhandled (Raised e')
      | None \<Rightarrow> HTTPException 500 (Detail_exc ''Error scoring lead: '' e))"

definition score_lead :: "env \<Rightarrow> db \<Rightarrow> int \<Rightarrow> (http_error + score_response) \<times> db" where
  "score_lead env db i =
     (case bind_int i of
        Inl e \<Rightarrow> (Inl (Unhandled e), db)
      | Inr _ \<Rightarrow>
          (case find (\<lambda>l. id_col l = i) db of
             None \<Rightarrow> (Inl (HTTPException 404 (Detail ''Lead not found'')), db)
           | Some lead \<Rightarrow>
               if \<not> truthy (api_key env)
               then (Inl (HTTPException 500 (Detail ''ANTHROPIC_API_KEY not configured'')), db)
               else (case score_lead_body env db lead of
                       (Inl e, db') \<Rightarrow> (Inl (scoring_failed env e), db')
                     | (Inr resp, db') \<Rightarrow> (Inr resp, db'))))"

section \<open>DELETE /clear-all\<close>

record clear_all_response =
  message :: string
  leads_deleted :: nat

definition clear_all_leads :: "db \<Rightarrow> clear_all_response \<times> db" where
  "clear_all_leads db =
     (let count = length db
      in (\<lparr>message = ''All '' @ str_nat count @ '' leads deleted successfully'',
           leads_deleted = count\<rparr>, []))"

section \<open>POST /upload\<close>

text \<open>
  \<open>pandas.read_csv\<close> is outside the repository: the endpoint is given its result, the
  rows of the data frame or the \<open>str(e)\<close> of the exception it raised. A row maps a column
  name to the \<open>str()\<close> of its cell, which is \<open>nan\<close> for a missing value.
\<close>

type_synonym row = "string \<Rightarrow> string"

definition clean_value :: "string \<Rightarrow> string" where
  "clean_value val_str = (if val_str = ''nan'' then [] else val_str)"

definition contact_name_of :: "string \<Rightarrow> py_exception + code_points" where
  "contact_name_of email =
     (if email \<noteq> [] \<and> contains email ''@'' \<and> email \<noteq> ''nan''
      then (case index (split email CHR ''@'') 0 of
              Inl e \<Rightarrow> Inl e
            | Inr local_part \<Rightarrow> Inr (title_py (replace local_part ''.'' '' '')))
      else Inr [])"

definition new_lead :: "int \<Rightarrow> row \<Rightarrow> py_exception + lead" where
  "new_lead i row =
     (case contact_name_of (row ''contact_email'') of
        Inl e \<Rightarrow> Inl e
      | Inr name \<Rightarrow>
          Inr \<lparr>id_col = i,
               company_name = Some (clean_value (row ''company_name'')),
               industry = Some (clean_value (row ''industry'')),
               location = Some (clean_value (row ''location'')),
               contact_name = Some name,
               contact_email = Some (clean_value (row ''contact_email'')),
               contact_phone = Some [],
               revenue = Some [],
               employees = Some [],
               website = Some (clean_value (row ''website'')),
               notes_col = Some (clean_value (row ''notes'')),
               ai_score = None,
               ai_justification = None,
               ai_next_action = None\<rparr>)"

definition next_id :: "db \<Rightarrow> int" where
  \<comment> \<open>the key SQLite gives a new row: one more than the largest key in the table\<close>
  "next_id db = (case map id_col db of [] \<Rightarrow> 1 | i # is \<Rightarrow> fold max is i + 1)"

fun add_rows :: "db \<Rightarrow> row list \<Rightarrow> py_exception + db" where
  "add_rows db [] = Inr db"
| "add_rows db (row # rows) =
     (case new_lead (next_id db) row of
        Inl e \<Rightarrow> Inl e
      | Inr l \<Rightarrow> add_rows (db @ [l]) rows)"

record upload_response =
  upload_message :: string
  leads_added :: nat

definition upload_csv_body ::
  "env \<Rightarrow> db \<Rightarrow> string + row list \<Rightarrow> (py_exception + upload_response) \<times> db" where
  \<comment> \<open>the body of the \<open>try\<close> in \<open>upload_csv\<close>, with the table it leaves: the print of
      line 225 comes after the commit\<close>
  "upload_csv_body env db df =
     (case df of
        Inl e \<Rightarrow> (Inl (Raised e), db)
      | Inr rows \<Rightarrow>
          (case first_error (console env)
                  (Print_rows # (if rows \<noteq> [] then [Print_first_row] else [])) of
             Some e \<Rightarrow> (Inl (Raised e), db)
           | None \<Rightarrow>
               (case add_rows db rows of
                  Inl e \<Rightarrow> (Inl e, db)
                | Inr db' \<Rightarrow>
                    (case commit_error env of
                       Some e \<Rightarrow> (Inl (Raised e), db)
                     | None \<Rightarrow>
                         (case first_error (console env) [Print_added] of
                            Some e \<Rightarrow> (Inl (Raised e), db')
                          | None \<Rightarrow>
                              (Inr \<lparr>upload_message = ''CSV uploaded successfully'',
                                    leads_added = length rows\<rparr>, db'))))))"

definition upload_failed :: "env \<Rightarrow> py_exception \<Rightarrow> http_error" where
  \<comment> \<open>the \<open>except\<close> branch of \<open>upload_csv\<close>: it prints, then raises the 500\<close>
  "upload_failed env e =
     (case first_error (console env) [Print_upload_error] of
        Some e' \<Rightarrow> Unhandled (Raised e')
      | None \<Rightarrow> HTTPException 500 (Detail_exc ''Error processing CSV: '' e))"

definition upload_csv ::
  "env \<Rightarrow> db \<Rightarrow> string \<Rightarrow> string + row list \<Rightarrow> (http_error + upload_response) \<times> db" where
  "upload_csv env db filename df =
     (if \<not> endswith filename ''.csv''
      then (Inl (HTTPException 400 (Detail ''File must be a CSV'')), db)
      else (case upload_csv_body env db df of
              (Inl e, db') \<Rightarrow> (Inl (upload_failed env e), db')
            | (Inr r, db') \<Rightarrow> (Inr r, db')))"

section \<open>GET /leads\<close>

text \<open>
  The query runs on SQLite (database.py). \<open>Lead.location.contains(x)\<close> is the SQL
  \<open>location LIKE '%' || x || '%'\<close>, with no escape character: in SQLite's \<open>LIKE\<close>,
  \<open>%\<close> stands for any run of characters, \<open>_\<close> for any one character, and the letters
  A to Z match their lower case. A comparison with a NULL column selects no row.
\<close>

definition like_fold :: "char \<Rightarrow> char" where
  "like_fold c =
     (let n = (of_char c :: nat) in if 65 \<le> n \<and> n \<le> 90 then char_of (n + 32) else c)"

fun sql_like :: "string \<Rightarrow> string \<Rightarrow> bool" where
  \<comment> \<open>\<open>text LIKE pattern\<close>, the pattern first\<close>
  "sql_like [] [] = True"
| "sql_like [] (c # cs) = False"
| "sql_like (p # ps) [] = (p = CHR ''%'' \<and> sql_like ps [])"
| "sql_like (p # ps) (c # cs) =
     (if p = CHR ''%'' then sql_like ps (c # cs) \<or> sql_like (p # ps) cs
      else if p = CHR ''_'' then sql_like ps cs
      else like_fold p = like_fold c \<and> sql_like ps cs)"

definition column_contains :: "string option \<Rightarrow> string \<Rightarrow> bool" where
  "column_contains col x =
     (case col of None \<Rightarrow> False | Some v \<Rightarrow> sql_like (''%'' @ x @ ''%'') v)"

definition column_ge :: "int option \<Rightarrow> int \<Rightarrow> bool" where
  "column_ge col m = (case col of None \<Rightarrow> False | Some v \<Rightarrow> m \<le> v)"

definition truthy_int :: "int option \<Rightarrow> bool" where
  \<comment> \<open>the truth value of an \<open>int\<close> or \<open>None\<close>\<close>
  "truthy_int m = (case m of None \<Rightarrow> False | Some v \<Rightarrow> v \<noteq> 0)"

definition get_leads ::
  "db \<Rightarrow> string option \<Rightarrow> string option \<Rightarrow> int option \<Rightarrow> http_error + lead list" where
  \<comment> \<open>the endpoint has no handler: an exception of the query is answered 500\<close>
  "get_leads db industry_p location_p min_score =
     (let query = db;
          query = (if truthy industry_p
                   then filter (\<lambda>l. industry l = industry_p) query else query);
          query = (if truthy location_p
                   then filter (\<lambda>l. column_contains (location l) (the location_p)) query
                   else query)
      in if truthy_int min_score
         then (case bind_int (the min_score) of
                 Inl e \<Rightarrow> Inl (Unhandled e)
               | Inr m \<Rightarrow> Inr (filter (\<lambda>l. column_ge (ai_score l) m) query))
         else Inr query)"

definition get_leads_spec ::
  "db \<Rightarrow> string option \<Rightarrow> string option \<Rightarrow> int option \<Rightarrow> lead list" where
  \<comment> \<open>the filter as the specification words it: each parameter that is given selects;
      industry by equality, location by substring, the score by an inclusive lower bound\<close>
  "get_leads_spec db industry_p location_p min_score =
     filter (\<lambda>l.
        (case industry_p of None \<Rightarrow> True | Some x \<Rightarrow> industry l = Some x) \<and>
        (case location_p of None \<Rightarrow> True
         | Some x \<Rightarrow> (case location l of None \<Rightarrow> False | Some v \<Rightarrow> contains v x)) \<and>
        (case min_score of None \<Rightarrow> True | Some m \<Rightarrow> column_ge (ai_score l) m)) db"

section \<open>GET /leads/{lead_id}, DELETE /leads/{lead_id}, GET /filters\<close>

definition get_lead :: "db \<Rightarrow> int \<Rightarrow> http_error + lead" where
  "get_lead db i =
     (case bind_int i of
        Inl e \<Rightarrow> Inl (Unhandled e)
      | Inr _ \<Rightarrow>
          (case find (\<lambda>l. id_col l = i) db of
             None \<Rightarrow> Inl (HTTPException 404 (Detail ''Lead not found''))
           | Some lead \<Rightarrow> Inr lead))"

definition delete_lead :: "db \<Rightarrow> int \<Rightarrow> (http_error + string) \<times> db" where
  "delete_lead db i =
     (case bind_int i of
        Inl e \<Rightarrow> (Inl (Unhandled e), db)
      | Inr _ \<Rightarrow>
          (case find (\<lambda>l. id_col l = i) db of
             None \<Rightarrow> (Inl (HTTPException 404 (Detail ''Lead not found'')), db)
           | Some lead \<Rightarrow>
               (Inr ''Lead deleted successfully'',
                filter (\<lambda>l. id_col l \<noteq> id_col lead) db)))"

definition get_filter_options :: "db \<Rightarrow> string set \<times> string set" where
  \<comment> \<open>the distinct industries and locations that are not empty; their order is the
      store's and is not modelled\<close>
  "get_filter_options db =
     (set (map the (filter truthy (map industry db))),
      set (map the (filter truthy (map location db))))"

section \<open>The endpoints and the table\<close>

datatype request =
    Read_root
  | Upload_csv string "string + row list"
  | Get_leads "string option" "string option" "int option"
  | Get_lead int
  | Delete_lead int
  | Get_filter_options
  | Clear_all_leads
  | Score_lead int

fun db_after :: "env \<Rightarrow> db \<Rightarrow> request \<Rightarrow> db" where
  \<comment> \<open>the table after a request; the reading endpoints commit nothing\<close>
  "db_after env db Read_root = db"
| "db_after env db (Upload_csv filename df) = snd (upload_csv env db filename df)"
| "db_after env db (Get_leads i l m) = db"
| "db_after env db (Get_lead i) = db"
| "db_after env db (Delete_lead i) = snd (delete_lead db i)"
| "db_after env db Get_filter_options = db"
| "db_after env db Clear_all_leads = snd (clear_all_leads db)"
| "db_after env db (Score_lead i) = snd (score_lead env db i)"

section \<open>The statements of the specification, for comparison\<close>




definition ai_unset :: "lead \<Rightarrow> bool" where
  "ai_unset l = (ai_score l = None \<and> ai_justification l = None \<and> ai_next_action l = None)"

definition example_lead :: lead where
  "example_lead =
     \<lparr>id_col = 1, company_name = Some ''Acme'', industry = Some ''Consulting'',
      location = Some ''New York'', contact_name = Some (codes ''Jane Doe''),
      contact_email = Some ''jane.doe@acme.com'', contact_phone = Some [],
      revenue = Some [], employees = Some [], website = Some ''acme.com'',
      notes_col = Some [], ai_score = None, ai_justification = None,
      ai_next_action = None\<rparr>"

definition example_env :: "string + string \<Rightarrow> env" where
  \<comment> \<open>a key is configured, the website times out, the model answers as given, the
      interpreter has its usual limit of 4300 digits, the commit goes through, no print
      raises\<close>
  "example_env answer =
     \<lparr>api_key = Some ''key'', http_get = (\<lambda>u. Inl ''timed out''),
      model_call = (\<lambda>p. answer), max_str_digits = 4300, commit_error = None,
      console = (\<lambda>site. None)\<rparr>"



definition example_row :: row where
  \<comment> \<open>a CSV row with an email and every other cell missing\<close>
  "example_row column = (if column = ''contact_email'' then ''amy@acme.com'' else ''nan'')"

definition example_new_lead :: lead where
  "example_new_lead =
     \<lparr>id_col = 2, company_name = Some [], industry = Some [], location = Some [],
      contact_name = Some (codes ''Amy''), contact_email = Some ''amy@acme.com'',
      contact_phone = Some [], revenue = Some [], employees = Some [], website = Some [],
      notes_col = Some [], ai_score = None, ai_justification = None,
      ai_next_action = None\<rparr>"

definition default_next_action :: string where
  "default_next_action = ''Review lead and determine outreach strategy''"

definition example_response :: string where
  \<comment> \<open>a response of five lines\<close>
  "example_response =
     ''SCORE: 85'' @ [CHR 0x0A] @ ''JUSTIFICATION: good  site'' @ [CHR 0x0A] @
     '' more text'' @ [CHR 0x0A] @ ''NEXT_ACTION: call them'' @ [CHR 0x0A] @ ''thanks''"

definition blank_justification_response :: string where
  \<comment> \<open>a response of three lines, the second empty\<close>
  "blank_justification_response =
     ''JUSTIFICATION:'' @ [CHR 0x0A] @ [CHR 0x0A] @ ''NEXT_ACTION: call''"

definition email_messages :: "string \<Rightarrow> string set" where
  \<comment> \<open>the six answers of the email analyzer, for an email domain \<open>d\<close>\<close>
  "email_messages d =
     {''No email provided'', ''Invalid email format'',
      ''Generic email domain ('' @ d @ '') - less professional'',
      ''Professional email - domain matches website ('' @ d @ '')'',
      ''Email domain ('' @ d @ '') doesn't match website'',
      ''Professional email domain ('' @ d @ '')''}"

definition stated_justification :: "string \<Rightarrow> string list \<Rightarrow> string" where
  \<comment> \<open>the justification as the specification words it, for a \<open>JUSTIFICATION:\<close> line and
      the lines after it: the line without its prefix, then every line up to the first
      that starts with \<open>NEXT_ACTION:\<close>, joined by spaces\<close>
  "stated_justification line ls =
     join '' '' (drop (length ''JUSTIFICATION:'') line #
                 takeWhile (\<lambda>l. \<not> startswith l ''NEXT_ACTION:'') ls)"

definition stated_next_action :: "string \<Rightarrow> string list \<Rightarrow> string" where
  \<comment> \<open>the next action as the specification words it, for a \<open>NEXT_ACTION:\<close> line and the
      lines after it: the line without its prefix, then every remaining line\<close>
  "stated_next_action line ls = join '' '' (drop (length ''NEXT_ACTION:'') line # ls)"

definition no_marker_line :: "string list \<Rightarrow> bool" where
  "no_marker_line ls =
     (\<forall>l \<in> set ls. \<not> startswith l ''SCORE:'' \<and> \<not> startswith l ''JUSTIFICATION:'' \<and>
                  \<not> startswith l ''NEXT_ACTION:'')"

section \<open>Facts about the string functions\<close>

lemma split_acc_no_sep: "sep \<notin> set cs \<Longrightarrow> split_acc sep w cs = [w @ cs]"
  by (induction cs arbitrary: w) auto

lemma split_acc_at_sep:
  "sep \<notin> set a \<Longrightarrow> split_acc sep w (a @ sep # rest) = (w @ a) # split_acc sep [] rest"
  by (induction a arbitrary: w) auto

lemma split_acc_not_Nil: "split_acc sep w cs \<noteq> []"
  by (induction cs arbitrary: w) auto

lemma index_split_0: "\<exists>x. index (split s sep) 0 = Inr x"
  using split_acc_not_Nil [of sep "[]" s] by (simp add: index_def split_def)

lemma contains_Nil: "contains s []"
  by (auto simp: contains_def startswith_def)

section \<open>The email analyzer: C6 and C10\<close>

lemma lower_gmail: "lower ''gmail.com'' = ''gmail.com''"
  by code_simp

lemma lower_acme: "lower ''acme.com'' = ''acme.com''"
  by code_simp

lemma website_acme:
  "replace (replace (replace ''https://www.acme.com/x'' ''http://'' []) ''https://'' [])
     ''www.'' [] = ''acme.com/x''"
  by code_simp

lemma analyze_no_at:
  assumes "CHR ''@'' \<notin> set e" "e \<noteq> []" "e \<noteq> ''nan''"
  shows "analyze_email_domain (Some e) w = ''Invalid email format''"
  using assms
  by (simp add: analyze_email_domain_def analyze_email_body_def truthy_def split_def
      split_acc_no_sep index_def)

lemma analyze_gmail:
  "analyze_email_domain (Some ''user@gmail.com'') w =
     ''Generic email domain (gmail.com) - less professional''"
  by (simp add: analyze_email_domain_def analyze_email_body_def truthy_def split_def
      index_def lower_gmail generic_domains_def)

lemma analyze_acme:
  "analyze_email_domain (Some ''user@acme.com'') (Some ''https://www.acme.com/x'') =
     ''Professional email - domain matches website (acme.com)''"
  by (simp add: analyze_email_domain_def analyze_email_body_def truthy_def split_def
      index_def lower_acme generic_domains_def website_acme contains_def startswith_def)

lemma analyze_total: "\<exists>d. analyze_email_domain e w \<in> email_messages d"
  unfolding analyze_email_domain_def analyze_email_body_def email_messages_def Let_def
  by (auto split: sum.splits)

lemma analyze_no_email:
  "analyze_email_domain None w = ''No email provided''"
  "analyze_email_domain (Some []) w = ''No email provided''"
  "analyze_email_domain (Some ''nan'') w = ''No email provided''"
  by (simp_all add: analyze_email_domain_def truthy_def)

text \<open>
  C6, as the code has it. The email analyzer returns one of its six messages for every
  email and every website, which may be \<open>None\<close>: every exception of its body is caught.
  \<open>user@gmail.com\<close> gets the generic-domain message with every website;
  \<open>user@acme.com\<close> with \<open>https://www.acme.com/x\<close> gets the domain-match message; the
  empty email gets \<open>No email provided\<close>; and an email without \<open>@\<close> gets the
  invalid-format message when it is neither empty nor the placeholder \<open>nan\<close>.
\<close>

theorem analyze_email_domain_cases:
  "(\<exists>d. analyze_email_domain email w \<in> email_messages d) \<and>
   analyze_email_domain (Some ''user@gmail.com'') w =
     ''Generic email domain (gmail.com) - less professional'' \<and>
   analyze_email_domain (Some ''user@acme.com'') (Some ''https://www.acme.com/x'') =
     ''Professional email - domain matches website (acme.com)'' \<and>
   analyze_email_domain (Some []) w = ''No email provided'' \<and>
   (CHR ''@'' \<notin> set e \<and> e \<noteq> [] \<and> e \<noteq> ''nan'' \<longrightarrow>
      analyze_email_domain (Some e) w = ''Invalid email format'')"
  using analyze_total analyze_gmail analyze_acme analyze_no_email(2) analyze_no_at
  by blast

theorem analyze_email_domain_cases_witness:
  "CHR ''@'' \<notin> set ''not-an-email'' \<and> ''not-an-email'' \<noteq> [] \<and> ''not-an-email'' \<noteq> ''nan'' \<and>
   analyze_email_domain (Some ''not-an-email'') (Some ''https://www.acme.com/x'') =
     ''Invalid email format''"
proof -
  have h: "CHR ''@'' \<notin> set ''not-an-email'' \<and> ''not-an-email'' \<noteq> [] \<and> ''not-an-email'' \<noteq> ''nan''"
    by simp
  from analyze_email_domain_cases [of None "Some ''https://www.acme.com/x''" "''not-an-email''"]
  have "CHR ''@'' \<notin> set ''not-an-email'' \<and> ''not-an-email'' \<noteq> [] \<and> ''not-an-email'' \<noteq> ''nan'' \<longrightarrow>
        analyze_email_domain (Some ''not-an-email'') (Some ''https://www.acme.com/x'') =
          ''Invalid email format''"
    by (elim conjE)
  with h show ?thesis by blast
qed

text \<open>
  C6 as stated fails at the email \<open>nan\<close>: it has no \<open>@\<close>, and the analyzer answers
  \<open>No email provided\<close>, not the invalid-format message.
\<close>

theorem analyze_email_domain_nan_counterexample:
  "CHR ''@'' \<notin> set ''nan'' \<and>
   analyze_email_domain (Some ''nan'') (Some ''https://www.acme.com/x'') = ''No email provided'' \<and>
   analyze_email_domain (Some ''nan'') (Some ''https://www.acme.com/x'') \<noteq> ''Invalid email format''"
  by (simp add: analyze_email_domain_def truthy_def)

text \<open>
  C10. An email whose text after its first \<open>@\<close> is empty or starts with another \<open>@\<close>
  has the empty domain. With a website that is neither empty nor \<open>nan\<close>, the analyzer
  answers that the domain matches the website: the empty domain is a substring of every
  website domain.
\<close>

theorem analyze_email_domain_empty_domain:
  assumes e: "e = a @ CHR ''@'' # rest" and a: "CHR ''@'' \<notin> set a"
    and rest: "rest = [] \<or> hd rest = CHR ''@''"
    and w: "w \<noteq> []" "w \<noteq> ''nan''"
  shows "analyze_email_domain (Some e) (Some w) =
           ''Professional email - domain matches website ()''"
proof -
  have "\<exists>ys. split_acc CHR ''@'' [] rest = [] # ys"
    using rest by (cases rest) auto
  then obtain ys where "split e CHR ''@'' = a # [] # ys"
    using e a by (auto simp: split_def split_acc_at_sep)
  then have d: "index (split e CHR ''@'') 1 = Inr []"
    by (simp add: index_def)
  have ne: "e \<noteq> []" "e \<noteq> ''nan''"
    using e a by (auto simp: append_eq_Cons_conv Cons_eq_append_conv)
  obtain x where x: "index (split (replace (replace (replace w ''http://'' []) ''https://'' [])
                        ''www.'' []) CHR ''/'') 0 = Inr x"
    using index_split_0 by blast
  show ?thesis
    using d ne w x
    by (simp add: analyze_email_domain_def analyze_email_body_def truthy_def lower_def
        generic_domains_def contains_Nil)
qed

theorem analyze_email_domain_empty_domain_witness:
  "analyze_email_domain (Some ''user@'') (Some ''acme.com'') =
     ''Professional email - domain matches website ()'' \<and>
   analyze_email_domain (Some ''a@@b.org'') (Some ''acme.com'') =
     ''Professional email - domain matches website ()''"
proof
  show "analyze_email_domain (Some ''user@'') (Some ''acme.com'') =
          ''Professional email - domain matches website ()''"
    by (rule analyze_email_domain_empty_domain [of _ "''user''" "[]"]) simp_all
  show "analyze_email_domain (Some ''a@@b.org'') (Some ''acme.com'') =
          ''Professional email - domain matches website ()''"
    by (rule analyze_email_domain_empty_domain [of _ "''a''" "''@b.org''"]) simp_all
qed

section \<open>The website summarizer: C5\<close>



section \<open>Clearing the table: C9\<close>

text \<open>
  C9. Clearing all leads twice in a row: from every table, both calls return their
  response, the table is empty after each, the first call reports the number of rows
  there were and the second reports 0.
\<close>

theorem clear_all_leads_twice:
  "(case clear_all_leads db of (r1, db1) \<Rightarrow>
      (case clear_all_leads db1 of (r2, db2) \<Rightarrow>
         leads_deleted r1 = length db \<and> db1 = [] \<and>
         leads_deleted r2 = 0 \<and> db2 = [] \<and>
         message r2 = ''All 0 leads deleted successfully''))"
  by (simp add: clear_all_leads_def Let_def str_nat.simps)

section \<open>Facts about the parser, the scoring endpoint and the upload\<close>




lemma find_id: "find (\<lambda>l. id_col l = i) db = Some lead \<Longrightarrow> id_col lead = i \<and> lead \<in> set db"
  by (auto simp: find_Some_iff)





lemma score_lead_body_cases:
  "score_lead_body env db lead =
     (case score_lead_try env lead of
        Inl e \<Rightarrow> (Inl e, db)
      | Inr (s, j, n, w) \<Rightarrow>
          (case commit_error env of
             Some e \<Rightarrow> (Inl (Raised e), db)
           | None \<Rightarrow>
               (case console env Print_final of
                  Some e \<Rightarrow> (Inl (Raised e), set_ai_fields (id_col lead) s j n db)
                | None \<Rightarrow>
                    (Inr \<lparr>lead_id = id_col lead, score = s, justification = j,
                          next_action = n, website_analyzed = w\<rparr>,
                     set_ai_fields (id_col lead) s j n db))))"
  by (simp add: score_lead_body_def Let_def split: sum.splits prod.splits option.splits)

lemma score_lead_body_db:
  assumes "score_lead_body env db lead = (res, db')"
  shows "db' = db \<or>
         (\<exists>s j n. commit_error env = None \<and> db' = set_ai_fields (id_col lead) s j n db)"
  using assms unfolding score_lead_body_cases
  by (auto split: sum.splits prod.splits option.splits)




lemma score_lead_db:
  assumes "score_lead env db i = (res, db')"
  shows "db' = db \<or> (\<exists>s j n. commit_error env = None \<and> db' = set_ai_fields i s j n db)"
proof (cases "bind_int i")
  case (Inl e)
  with assms show ?thesis by (simp add: score_lead_def)
next
  case (Inr v)
  show ?thesis
  proof (cases "find (\<lambda>l. id_col l = i) db")
    case None
    with Inr assms show ?thesis by (simp add: score_lead_def)
  next
    case (Some lead)
    then have i: "id_col lead = i" using find_id by blast
    show ?thesis
    proof (cases "truthy (api_key env)")
      case False
      with Inr Some assms show ?thesis by (simp add: score_lead_def)
    next
      case True
      obtain r d where b: "score_lead_body env db lead = (r, d)"
        by (cases "score_lead_body env db lead")
      with Inr Some True assms have "d = db'"
        by (auto simp: score_lead_def split: sum.splits)
      with score_lead_body_db [OF b] i show ?thesis by simp
    qed
  qed
qed





lemma set_ai_fields_frame:
  "length (set_ai_fields i s j n db) = length db"
  "k < length db \<Longrightarrow>
     (set_ai_fields i s j n db ! k)\<lparr>ai_score := ai_score (db ! k),
        ai_justification := ai_justification (db ! k),
        ai_next_action := ai_next_action (db ! k)\<rparr> = db ! k"
  "k < length db \<Longrightarrow> id_col (db ! k) \<noteq> i \<Longrightarrow> set_ai_fields i s j n db ! k = db ! k"
  "k < length db \<Longrightarrow> id_col (db ! k) = i \<Longrightarrow>
     ai_score (set_ai_fields i s j n db ! k) = Some s \<and>
     ai_justification (set_ai_fields i s j n db ! k) = Some j \<and>
     ai_next_action (set_ai_fields i s j n db ! k) = Some n"
  by (simp_all add: set_ai_fields_def)





lemma new_lead_ai_unset: "new_lead i row = Inr l \<Longrightarrow> ai_unset l \<and> id_col l = i"
  by (auto simp: new_lead_def ai_unset_def split: sum.splits)

lemma fold_max_ge: "(a::int) \<le> fold max xs a \<and> (\<forall>x \<in> set xs. x \<le> fold max xs a)"
proof (induction xs arbitrary: a)
  case Nil
  then show ?case by simp
next
  case (Cons x xs)
  from Cons.IH [of "max x a"] show ?case by auto
qed

lemma next_id_greater: "l \<in> set db \<Longrightarrow> id_col l < next_id db"
proof (cases db)
  case Nil
  then show "l \<in> set db \<Longrightarrow> ?thesis" by simp
next
  case (Cons x xs)
  assume "l \<in> set db"
  then have "id_col l = id_col x \<or> id_col l \<in> set (map id_col xs)" using Cons by auto
  then have "id_col l \<le> fold max (map id_col xs) (id_col x)"
    using fold_max_ge [of "id_col x" "map id_col xs"] by auto
  then show ?thesis using Cons by (simp add: next_id_def)
qed

lemma add_rows_appends:
  "add_rows db rows = Inr db' \<Longrightarrow>
     \<exists>new. db' = db @ new \<and> length new = length rows \<and>
           (\<forall>l \<in> set new. ai_unset l \<and> (\<forall>l0 \<in> set db. id_col l0 < id_col l))"
proof (induction rows arbitrary: db)
  case Nil
  then show ?case by simp
next
  case (Cons row rows)
  then obtain l where l: "new_lead (next_id db) row = Inr l"
    and r: "add_rows (db @ [l]) rows = Inr db'"
    by (auto split: sum.splits)
  from Cons.IH [OF r] obtain new where new:
    "db' = (db @ [l]) @ new" "length new = length rows"
    "\<forall>l' \<in> set new. ai_unset l' \<and> (\<forall>l0 \<in> set (db @ [l]). id_col l0 < id_col l')" by blast
  have "ai_unset l" "\<forall>l0 \<in> set db. id_col l0 < id_col l"
    using new_lead_ai_unset [OF l] next_id_greater by auto
  with new show ?case
    by (intro exI [of _ "l # new"]) auto
qed

lemma upload_csv_rows:
  assumes "upload_csv env db filename df = (res, db')"
  shows "\<exists>new. db' = db @ new \<and>
           (\<forall>l \<in> set new. ai_unset l \<and> (\<forall>l0 \<in> set db. id_col l0 < id_col l))"
proof (cases "db' = db")
  case True
  then show ?thesis by simp
next
  case False
  with assms obtain rows where "add_rows db rows = Inr db'"
    by (auto simp: upload_csv_def upload_csv_body_def
        split: if_splits sum.splits option.splits prod.splits)
  from add_rows_appends [OF this] show ?thesis by blast
qed

lemma delete_lead_kept: "subseq (snd (delete_lead db i)) db"
  by (auto simp: delete_lead_def split: option.splits sum.splits)

lemma db_after_frame:
  assumes "\<forall>i. req \<noteq> Score_lead i"
  shows "\<exists>kept new. db_after env db req = kept @ new \<and> subseq kept db \<and>
           (\<forall>l \<in> set new. ai_unset l \<and> (\<forall>l0 \<in> set db. id_col l0 < id_col l))"
proof -
  have keep: "subseq d db \<Longrightarrow> \<exists>kept new. d = kept @ new \<and> subseq kept db \<and>
           (\<forall>l \<in> set new. ai_unset l \<and> (\<forall>l0 \<in> set db. id_col l0 < id_col l))" for d
    by (rule exI [of _ d], rule exI [of _ "[]"]) simp
  show ?thesis
  proof (cases req)
    case (Upload_csv filename df)
    obtain res db' where u: "upload_csv env db filename df = (res, db')"
      by (cases "upload_csv env db filename df")
    from upload_csv_rows [OF u] obtain new where
      "db' = db @ new" "\<forall>l \<in> set new. ai_unset l \<and> (\<forall>l0 \<in> set db. id_col l0 < id_col l)"
      by blast
    then have "db_after env db req = db @ new \<and> subseq db db \<and>
           (\<forall>l \<in> set new. ai_unset l \<and> (\<forall>l0 \<in> set db. id_col l0 < id_col l))"
      using Upload_csv u by simp
    then show ?thesis by blast
  next
    case (Delete_lead i)
    then show ?thesis using keep [OF delete_lead_kept [of db i]] by simp
  next
    case Clear_all_leads
    then show ?thesis using keep [of "[]"] by (simp add: clear_all_leads_def Let_def)
  next
    case (Score_lead i)
    with assms show ?thesis by blast
  qed (use keep [of db] in simp_all)
qed



section \<open>The score is between 0 and 100: C1\<close>




section \<open>Scoring writes all or nothing: C2\<close>








section \<open>Who writes the scoring fields: C8\<close>

text \<open>
  C8. After any request but a scoring request, the table is a part of the old table, its
  rows unchanged and in their order, followed by new rows: each new row has its three
  scoring fields unset and a key larger than every key of the old table, so no row that was
  there has a scoring field written, set or reset. An upload keeps every old row and
  appends such rows. A scoring request, whatever it answers, keeps the number of rows,
  leaves the rows of other leads as they were, and changes nothing but the three scoring
  fields in the lead's own row: putting the old values back gives the old row.
\<close>

theorem ai_fields_frame:
  "((\<forall>i. req \<noteq> Score_lead i) \<longrightarrow>
      (\<exists>kept new. db_after env db req = kept @ new \<and> subseq kept db \<and>
         (\<forall>l \<in> set new. ai_unset l \<and> (\<forall>l0 \<in> set db. id_col l0 < id_col l)))) \<and>
   (upload_csv env db filename df = (res, db1) \<longrightarrow>
      (\<exists>new. db1 = db @ new \<and>
         (\<forall>l \<in> set new. ai_unset l \<and> (\<forall>l0 \<in> set db. id_col l0 < id_col l)))) \<and>
   (score_lead env db i = (res', db2) \<longrightarrow>
      length db2 = length db \<and>
      (\<forall>k < length db.
         (db2 ! k)\<lparr>ai_score := ai_score (db ! k),
                    ai_justification := ai_justification (db ! k),
                    ai_next_action := ai_next_action (db ! k)\<rparr> = db ! k \<and>
         (id_col (db ! k) \<noteq> i \<longrightarrow> db2 ! k = db ! k)))"
proof -
  have a: "(\<forall>i. req \<noteq> Score_lead i) \<longrightarrow>
      (\<exists>kept new. db_after env db req = kept @ new \<and> subseq kept db \<and>
         (\<forall>l \<in> set new. ai_unset l \<and> (\<forall>l0 \<in> set db. id_col l0 < id_col l)))"
    using db_after_frame by blast
  have b: "upload_csv env db filename df = (res, db1) \<longrightarrow>
      (\<exists>new. db1 = db @ new \<and>
         (\<forall>l \<in> set new. ai_unset l \<and> (\<forall>l0 \<in> set db. id_col l0 < id_col l)))"
    using upload_csv_rows by blast
  have c: "score_lead env db i = (res', db2) \<longrightarrow>
      length db2 = length db \<and>
      (\<forall>k < length db.
         (db2 ! k)\<lparr>ai_score := ai_score (db ! k),
                    ai_justification := ai_justification (db ! k),
                    ai_next_action := ai_next_action (db ! k)\<rparr> = db ! k \<and>
         (id_col (db ! k) \<noteq> i \<longrightarrow> db2 ! k = db ! k))"
  proof
    assume s: "score_lead env db i = (res', db2)"
    from score_lead_db [OF s] consider "db2 = db"
      | s j n where "db2 = set_ai_fields i s j n db"
      by blast
    then show "length db2 = length db \<and>
      (\<forall>k < length db.
         (db2 ! k)\<lparr>ai_score := ai_score (db ! k),
                    ai_justification := ai_justification (db ! k),
                    ai_next_action := ai_next_action (db ! k)\<rparr> = db ! k \<and>
         (id_col (db ! k) \<noteq> i \<longrightarrow> db2 ! k = db ! k))"
    proof cases
      case 1
      then show ?thesis by simp
    next
      case 2
      show ?thesis
        unfolding 2 using set_ai_fields_frame(1-3) by blast
    qed
  qed
  from a b c show ?thesis by blast
qed

lemma example_upload:
  "db_after (example_env (Inl [])) [example_lead] (Upload_csv ''leads.csv'' (Inr [example_row])) =
     [example_lead, example_new_lead]"
  by code_simp

theorem ai_fields_frame_witness:
  "db_after (example_env (Inl [])) [example_lead] (Upload_csv ''leads.csv'' (Inr [example_row])) =
     [example_lead, example_new_lead] \<and>
   (\<exists>kept new. [example_lead, example_new_lead] = kept @ new \<and> subseq kept [example_lead] \<and>
      (\<forall>l \<in> set new. ai_unset l \<and> (\<forall>l0 \<in> set [example_lead]. id_col l0 < id_col l)))"
proof -
  let ?req = "Upload_csv ''leads.csv'' (Inr [example_row])"
  have h: "\<forall>i. ?req \<noteq> Score_lead i" by simp
  have "\<exists>kept new. db_after (example_env (Inl [])) [example_lead] ?req = kept @ new \<and>
      subseq kept [example_lead] \<and>
      (\<forall>l \<in> set new. ai_unset l \<and> (\<forall>l0 \<in> set [example_lead]. id_col l0 < id_col l))"
    by (rule ai_fields_frame [of ?req "example_env (Inl [])" "[example_lead]",
          THEN conjunct1, THEN mp, OF h])
  then show ?thesis unfolding example_upload by simp
qed

section \<open>Facts about substrings and LIKE\<close>

lemma contains_iff: "contains s sub \<longleftrightarrow> (\<exists>a b. s = a @ sub @ b)"
proof
  assume "contains s sub"
  then obtain k where k: "take (length sub) (drop k s) = sub"
    by (auto simp: contains_def startswith_def)
  have "s = take k s @ take (length sub) (drop k s) @ drop (length sub) (drop k s)"
    by (simp only: append_take_drop_id)
  with k show "\<exists>a b. s = a @ sub @ b" by metis
next
  assume "\<exists>a b. s = a @ sub @ b"
  then obtain a b where s: "s = a @ sub @ b" by blast
  have "length a \<in> set (upt 0 (Suc (length s)))" using s by simp
  moreover have "startswith (drop (length a) s) sub" using s by (simp add: startswith_def)
  ultimately show "contains s sub" unfolding contains_def by blast
qed

lemma sql_like_percent: "sql_like ''%'' t"
  by (induction t) auto

lemma sql_like_plain_suffix:
  assumes "CHR ''%'' \<notin> set p" "CHR ''_'' \<notin> set p"
  shows "sql_like (p @ ''%'') t \<longleftrightarrow>
           (\<exists>mid post. t = mid @ post \<and> map like_fold mid = map like_fold p)"
  using assms
proof (induction p arbitrary: t)
  case Nil
  then show ?case using sql_like_percent by simp
next
  case (Cons a p)
  then have a: "a \<noteq> CHR ''%''" "a \<noteq> CHR ''_''" and
    ih: "\<And>t. sql_like (p @ ''%'') t \<longleftrightarrow>
           (\<exists>mid post. t = mid @ post \<and> map like_fold mid = map like_fold p)"
    by auto
  show ?case
  proof (cases t)
    case Nil
    then show ?thesis using a by auto
  next
    case (Cons c cs)
    have "sql_like ((a # p) @ ''%'') t \<longleftrightarrow> like_fold a = like_fold c \<and> sql_like (p @ ''%'') cs"
      using a Cons by simp
    also have "\<dots> \<longleftrightarrow> like_fold a = like_fold c \<and>
        (\<exists>mid post. cs = mid @ post \<and> map like_fold mid = map like_fold p)"
      using ih by simp
    also have "\<dots> \<longleftrightarrow> (\<exists>mid post. t = mid @ post \<and> map like_fold mid = map like_fold (a # p))"
    proof
      assume "like_fold a = like_fold c \<and>
        (\<exists>mid post. cs = mid @ post \<and> map like_fold mid = map like_fold p)"
      then obtain mid post where "cs = mid @ post" "map like_fold mid = map like_fold p"
        "like_fold a = like_fold c" by blast
      then have "t = (c # mid) @ post \<and> map like_fold (c # mid) = map like_fold (a # p)"
        using Cons by simp
      then show "\<exists>mid post. t = mid @ post \<and> map like_fold mid = map like_fold (a # p)"
        by blast
    next
      assume "\<exists>mid post. t = mid @ post \<and> map like_fold mid = map like_fold (a # p)"
      then obtain mid post where m: "t = mid @ post" "map like_fold mid = map like_fold (a # p)"
        by blast
      then obtain m ms where mid: "mid = m # ms" by (cases mid) auto
      with m Cons have "c = m" "cs = ms @ post" "like_fold m = like_fold a"
        "map like_fold ms = map like_fold p" by auto
      then show "like_fold a = like_fold c \<and>
        (\<exists>mid post. cs = mid @ post \<and> map like_fold mid = map like_fold p)" by auto
    qed
    finally show ?thesis .
  qed
qed

lemma sql_like_percent_prefix:
  "sql_like (CHR ''%'' # q) t \<longleftrightarrow> (\<exists>pre rest. t = pre @ rest \<and> sql_like q rest)"
proof (induction t)
  case Nil
  then show ?case by simp
next
  case (Cons c cs)
  have "sql_like (CHR ''%'' # q) (c # cs) \<longleftrightarrow>
          sql_like q (c # cs) \<or> (\<exists>pre rest. cs = pre @ rest \<and> sql_like q rest)"
    using Cons.IH by simp
  also have "\<dots> \<longleftrightarrow> (\<exists>pre rest. c # cs = pre @ rest \<and> sql_like q rest)"
  proof
    assume "sql_like q (c # cs) \<or> (\<exists>pre rest. cs = pre @ rest \<and> sql_like q rest)"
    then show "\<exists>pre rest. c # cs = pre @ rest \<and> sql_like q rest"
    proof
      assume "sql_like q (c # cs)"
      then have "c # cs = [] @ (c # cs) \<and> sql_like q (c # cs)" by simp
      then show ?thesis by blast
    next
      assume "\<exists>pre rest. cs = pre @ rest \<and> sql_like q rest"
      then obtain pre rest where "cs = pre @ rest" "sql_like q rest" by blast
      then have "c # cs = (c # pre) @ rest \<and> sql_like q rest" by simp
      then show ?thesis by blast
    qed
  next
    assume "\<exists>pre rest. c # cs = pre @ rest \<and> sql_like q rest"
    then obtain pre rest where p: "c # cs = pre @ rest" "sql_like q rest" by blast
    show "sql_like q (c # cs) \<or> (\<exists>pre rest. cs = pre @ rest \<and> sql_like q rest)"
    proof (cases pre)
      case Nil
      with p show ?thesis by simp
    next
      case (Cons x xs)
      with p have "cs = xs @ rest" by simp
      with p(2) show ?thesis by blast
    qed
  qed
  finally show ?case .
qed

lemma column_contains_plain:
  assumes "CHR ''%'' \<notin> set x" "CHR ''_'' \<notin> set x"
  shows "column_contains (Some v) x = contains (map like_fold v) (map like_fold x)"
proof -
  have "column_contains (Some v) x \<longleftrightarrow>
          (\<exists>pre rest. v = pre @ rest \<and>
             (\<exists>mid post. rest = mid @ post \<and> map like_fold mid = map like_fold x))"
    using sql_like_percent_prefix [of "x @ ''%''" v] sql_like_plain_suffix [OF assms]
    by (simp add: column_contains_def)
  also have "\<dots> \<longleftrightarrow> (\<exists>a b. map like_fold v = a @ map like_fold x @ b)"
  proof
    assume "\<exists>pre rest. v = pre @ rest \<and>
             (\<exists>mid post. rest = mid @ post \<and> map like_fold mid = map like_fold x)"
    then obtain pre mid post where "v = pre @ mid @ post" "map like_fold mid = map like_fold x"
      by blast
    then have "map like_fold v = map like_fold pre @ map like_fold x @ map like_fold post"
      by simp
    then show "\<exists>a b. map like_fold v = a @ map like_fold x @ b" by blast
  next
    assume "\<exists>a b. map like_fold v = a @ map like_fold x @ b"
    then obtain a b where "map like_fold v = a @ map like_fold x @ b" by blast
    then obtain pre rest where 1: "v = pre @ rest" "map like_fold x @ b = map like_fold rest"
      unfolding map_eq_append_conv by blast
    from 1(2) obtain mid post where "rest = mid @ post" "map like_fold x = map like_fold mid"
      unfolding append_eq_map_conv by blast
    then have 2: "rest = mid @ post" "map like_fold mid = map like_fold x"
      by simp_all
    with 1 show "\<exists>pre rest. v = pre @ rest \<and>
             (\<exists>mid post. rest = mid @ post \<and> map like_fold mid = map like_fold x)" by blast
  qed
  finally show ?thesis by (simp add: contains_iff)
qed

section \<open>The filters of GET /leads: C7\<close>

lemma get_leads_eq:
  "get_leads db industry_p location_p min_score =
     (if truthy_int min_score \<and> (the min_score < - (2 ^ 63) \<or> 2 ^ 63 \<le> the min_score)
      then Inl (Unhandled OverflowError)
      else Inr (filter (\<lambda>l.
                  (truthy industry_p \<longrightarrow> industry l = industry_p) \<and>
                  (truthy location_p \<longrightarrow> column_contains (location l) (the location_p)) \<and>
                  (truthy_int min_score \<longrightarrow> column_ge (ai_score l) (the min_score))) db))"
  by (auto simp: get_leads_def bind_int_def Let_def conj_commute intro: filter_cong)

lemma get_leads_spec_agrees:
  assumes "industry_p = None \<or> truthy industry_p"
    and "min_score = None \<or>
         (truthy_int min_score \<and> - (2 ^ 63) \<le> the min_score \<and> the min_score < 2 ^ 63)"
  shows "get_leads db industry_p None min_score =
           Inr (get_leads_spec db industry_p None min_score)"
proof -
  have "filter (\<lambda>l.
           (truthy industry_p \<longrightarrow> industry l = industry_p) \<and>
           (truthy None \<longrightarrow> column_contains (location l) (the None)) \<and>
           (truthy_int min_score \<longrightarrow> column_ge (ai_score l) (the min_score))) db =
        get_leads_spec db industry_p None min_score"
    unfolding get_leads_spec_def
    by (rule filter_cong [OF refl])
      (use assms in \<open>auto simp: truthy_def truthy_int_def split: option.splits\<close>)
  moreover have "\<not> (truthy_int min_score \<and>
                    (the min_score < - (2 ^ 63) \<or> 2 ^ 63 \<le> the min_score))"
    using assms(2) by (auto simp: truthy_int_def)
  ultimately show ?thesis
    unfolding get_leads_eq by simp
qed

lemma get_leads_10_60_90:
  assumes "ai_score a = Some 10" "ai_score b = Some 60" "ai_score c = Some 90"
  shows "get_leads [a, b, c] None None (Some 50) = Inr [b, c]"
  using assms by (simp add: get_leads_eq truthy_def truthy_int_def column_ge_def)

text \<open>
  C7, as the code has it. A \<open>min_score\<close> other than 0 that is not a 64-bit integer makes
  the query raise \<open>OverflowError\<close>, and the request is answered 500. Otherwise
  \<open>GET /leads\<close> returns, in the order of the table, exactly the leads that pass every
  filter whose parameter is given and true as a Python value, that is a non-empty string
  or a number other than 0: the industry equal to the parameter, the location \<open>LIKE\<close> the
  parameter between two \<open>%\<close>, and the score set and at least \<open>min_score\<close>. For a
  location parameter without \<open>%\<close> and \<open>_\<close> the \<open>LIKE\<close> is: the location contains the
  parameter once A to Z are lowered in both. With no location parameter, the industry
  absent or not empty, and \<open>min_score\<close> absent or a 64-bit integer other than 0, the
  result is the one the specification words. With leads scored 10, 60 and 90,
  \<open>min_score=50\<close> returns the two scored 60 and 90.
\<close>

theorem get_leads_filters:
  "get_leads db industry_p location_p min_score =
     (if truthy_int min_score \<and> (the min_score < - (2 ^ 63) \<or> 2 ^ 63 \<le> the min_score)
      then Inl (Unhandled OverflowError)
      else Inr (filter (\<lambda>l.
                  (truthy industry_p \<longrightarrow> industry l = industry_p) \<and>
                  (truthy location_p \<longrightarrow> column_contains (location l) (the location_p)) \<and>
                  (truthy_int min_score \<longrightarrow> column_ge (ai_score l) (the min_score))) db)) \<and>
   (CHR ''%'' \<notin> set x \<and> CHR ''_'' \<notin> set x \<longrightarrow>
      column_contains (Some v) x = contains (map like_fold v) (map like_fold x)) \<and>
   ((industry_p = None \<or> truthy industry_p) \<and>
    (min_score = None \<or>
     (truthy_int min_score \<and> - (2 ^ 63) \<le> the min_score \<and> the min_score < 2 ^ 63)) \<longrightarrow>
      get_leads db industry_p None min_score =
        Inr (get_leads_spec db industry_p None min_score)) \<and>
   (ai_score a = Some 10 \<and> ai_score b = Some 60 \<and> ai_score c = Some 90 \<longrightarrow>
      get_leads [a, b, c] None None (Some 50) = Inr [b, c])"
  using get_leads_eq [of db industry_p location_p min_score] column_contains_plain [of x v]
    get_leads_spec_agrees [of industry_p min_score db] get_leads_10_60_90 [of a b c]
  by blast

theorem get_leads_filters_witness:
  "ai_score (example_lead\<lparr>ai_score := Some 10\<rparr>) = Some 10 \<and>
   ai_score (example_lead\<lparr>ai_score := Some 60\<rparr>) = Some 60 \<and>
   ai_score (example_lead\<lparr>ai_score := Some 90\<rparr>) = Some 90 \<and>
   get_leads [example_lead\<lparr>ai_score := Some 10\<rparr>, example_lead\<lparr>ai_score := Some 60\<rparr>,
              example_lead\<lparr>ai_score := Some 90\<rparr>] None None (Some 50) =
     Inr [example_lead\<lparr>ai_score := Some 60\<rparr>, example_lead\<lparr>ai_score := Some 90\<rparr>]"
proof -
  have h: "ai_score (example_lead\<lparr>ai_score := Some 10\<rparr>) = Some 10 \<and>
           ai_score (example_lead\<lparr>ai_score := Some 60\<rparr>) = Some 60 \<and>
           ai_score (example_lead\<lparr>ai_score := Some 90\<rparr>) = Some 90"
    by simp
  have "get_leads [example_lead\<lparr>ai_score := Some 10\<rparr>, example_lead\<lparr>ai_score := Some 60\<rparr>,
              example_lead\<lparr>ai_score := Some 90\<rparr>] None None (Some 50) =
     Inr [example_lead\<lparr>ai_score := Some 60\<rparr>, example_lead\<lparr>ai_score := Some 90\<rparr>]"
    by (rule get_leads_filters [of "[]" None None None "[]" "[]"
          "example_lead\<lparr>ai_score := Some 10\<rparr>" "example_lead\<lparr>ai_score := Some 60\<rparr>"
          "example_lead\<lparr>ai_score := Some 90\<rparr>",
          THEN conjunct2, THEN conjunct2, THEN conjunct2, THEN mp, OF h])
  with h show ?thesis by blast
qed

text \<open>
  C7 as stated fails four ways on a table with one unscored lead of industry
  \<open>Consulting\<close> in \<open>New York\<close>: \<open>min_score=0\<close> returns it though it has no score;
  an empty \<open>industry\<close> parameter returns it though its industry is not empty; the
  location parameter \<open>new\<close> returns it though \<open>New York\<close> has no substring \<open>new\<close>;
  and \<open>min_score=9223372036854775808\<close> is answered 500, where the filter as stated
  selects no lead.
\<close>

theorem get_leads_counterexample:
  "get_leads [example_lead] None None (Some 0) = Inr [example_lead] \<and>
   get_leads_spec [example_lead] None None (Some 0) = [] \<and>
   get_leads [example_lead] (Some []) None None = Inr [example_lead] \<and>
   get_leads_spec [example_lead] (Some []) None None = [] \<and>
   get_leads [example_lead] None (Some ''new'') None = Inr [example_lead] \<and>
   get_leads_spec [example_lead] None (Some ''new'') None = [] \<and>
   get_leads [example_lead] None None (Some 9223372036854775808) =
     Inl (Unhandled OverflowError) \<and>
   get_leads_spec [example_lead] None None (Some 9223372036854775808) = []"
  by code_simp

section \<open>Facts about whitespace, joining and replacing\<close>

lemma split_ws_acc_space:
  "isspace sp \<Longrightarrow> split_ws_acc w (a @ sp # b) = split_ws_acc w a @ split_ws_acc [] b"
  by (induction a arbitrary: w) auto

lemma split_ws_acc_dropWhile: "split_ws_acc [] (dropWhile isspace b) = split_ws_acc [] b"
  by (induction b) auto

lemma split_ws_acc_spaces: "\<forall>c \<in> set t. isspace c \<Longrightarrow> split_ws_acc [] t = []"
  by (induction t) auto

lemma split_ws_acc_trailing:
  "\<forall>c \<in> set t. isspace c \<Longrightarrow> split_ws_acc w (b @ t) = split_ws_acc w b"
proof (induction b arbitrary: w)
  case Nil
  then show ?case by (cases t) (auto simp: split_ws_acc_spaces)
next
  case (Cons c b)
  then show ?case by auto
qed

lemma rstrip_decompose:
  "\<exists>t. s = rev (dropWhile isspace (rev s)) @ t \<and> (\<forall>c \<in> set t. isspace c)"
proof -
  have "rev s = takeWhile isspace (rev s) @ dropWhile isspace (rev s)" by simp
  then have "s = rev (dropWhile isspace (rev s)) @ rev (takeWhile isspace (rev s))"
    by (metis rev_append rev_rev_ident)
  moreover have "\<forall>c \<in> set (rev (takeWhile isspace (rev s))). isspace c"
    by (auto dest: set_takeWhileD)
  ultimately show ?thesis by blast
qed

lemma split_ws_strip: "split_ws (strip s) = split_ws s"
proof -
  obtain t where t: "dropWhile isspace s = rev (dropWhile isspace (rev (dropWhile isspace s))) @ t"
    "\<forall>c \<in> set t. isspace c"
    using rstrip_decompose [of "dropWhile isspace s"] by blast
  have "split_ws s = split_ws_acc [] (dropWhile isspace s)"
    by (simp add: split_ws_def split_ws_acc_dropWhile)
  also have "\<dots> = split_ws_acc [] (strip s @ t)"
    using t(1) by (simp add: strip_def)
  also have "\<dots> = split_ws (strip s)"
    using t(2) by (simp add: split_ws_acc_trailing split_ws_def)
  finally show ?thesis by simp
qed

lemma split_ws_append_space: "split_ws (a @ '' '' @ b) = split_ws a @ split_ws b"
  using split_ws_acc_space [of "CHR '' ''" "[]" a b] by (simp add: split_ws_def isspace_def)

lemma split_ws_Nil: "split_ws [] = []"
  by (simp add: split_ws_def)

lemma split_ws_join: "split_ws (join '' '' xs) = concat (map split_ws xs)"
proof (induction xs)
  case Nil
  then show ?case by (simp add: split_ws_Nil)
next
  case (Cons x xs)
  show ?case
  proof (cases xs)
    case Nil
    then show ?thesis by simp
  next
    case (Cons y ys)
    have "split_ws (join '' '' (x # xs)) = split_ws (x @ '' '' @ join '' '' xs)"
      using Cons by simp
    also have "\<dots> = split_ws x @ split_ws (join '' '' xs)"
      by (rule split_ws_append_space)
    finally show ?thesis using Cons.IH by simp
  qed
qed

lemma length_join_Cons:
  "length (join '' '' (x # xs)) \<le> length x + 1 + length (join '' '' xs)"
  by (cases xs) auto

lemma length_join_split_ws_acc:
  "length (join '' '' (split_ws_acc w s)) \<le> length w + length s"
proof (induction s arbitrary: w)
  case Nil
  then show ?case by simp
next
  case (Cons c s)
  show ?case
  proof (cases "isspace c")
    case True
    show ?thesis
    proof (cases "w = []")
      case True
      with \<open>isspace c\<close> Cons.IH [of "[]"] show ?thesis by simp
    next
      case False
      have "length (join '' '' (w # split_ws_acc [] s)) \<le>
              length w + 1 + length (join '' '' (split_ws_acc [] s))"
        by (rule length_join_Cons)
      with False \<open>isspace c\<close> Cons.IH [of "[]"] show ?thesis by simp
    qed
  next
    case False
    with Cons.IH [of "w @ [c]"] show ?thesis by simp
  qed
qed

lemma length_collapse: "length (collapse s) \<le> length s"
  using length_join_split_ws_acc [of "[]" s] by (simp add: collapse_def split_ws_def)

lemma contains_tl: "s \<noteq> [] \<Longrightarrow> contains (tl s) sub \<Longrightarrow> contains s sub"
proof -
  assume s: "s \<noteq> []" and "contains (tl s) sub"
  then obtain a b where "tl s = a @ sub @ b" unfolding contains_iff by blast
  with s have "s = (hd s # a) @ sub @ b" by (cases s) auto
  then show ?thesis unfolding contains_iff by blast
qed

lemma contains_startswith: "startswith s sub \<Longrightarrow> contains s sub"
proof -
  assume "startswith s sub"
  then have "s = [] @ sub @ drop (length sub) s"
    by (simp add: startswith_def) (metis append_take_drop_id)
  then show ?thesis unfolding contains_iff by blast
qed

lemma replace_absent:
  "old \<noteq> [] \<Longrightarrow> \<not> contains s old \<Longrightarrow> replace s old new = s"
proof (induction s)
  case Nil
  then show ?case by (simp add: replace.simps)
next
  case (Cons c s)
  have 1: "\<not> startswith (c # s) old" using Cons.prems(2) contains_startswith by blast
  have 2: "\<not> contains s old" using Cons.prems(2) contains_tl [of "c # s" old] by auto
  show ?case
    using Cons.prems(1) 1 Cons.IH [OF Cons.prems(1) 2]
    by (subst replace.simps) simp
qed

lemma replace_prefix:
  assumes "old \<noteq> []" "startswith line old" "\<not> contains (drop (length old) line) old"
  shows "replace line old [] = drop (length old) line"
proof -
  have "line \<noteq> []" using assms(1,2) by (auto simp: startswith_def)
  then have "replace line old [] = replace (drop (length old) line) old []"
    using assms(1,2) by (subst replace.simps) simp
  then show ?thesis using replace_absent [OF assms(1,3)] by simp
qed

section \<open>Facts about the scan of the response lines\<close>

lemma markers_distinct:
  "startswith l ''JUSTIFICATION:'' \<Longrightarrow> \<not> startswith l ''SCORE:''"
  "startswith l ''NEXT_ACTION:'' \<Longrightarrow> \<not> startswith l ''SCORE:''"
  "startswith l ''NEXT_ACTION:'' \<Longrightarrow> \<not> startswith l ''JUSTIFICATION:''"
  by (cases l; simp add: startswith_def)+

lemma scan_lines_Cons:
  assumes "scan_lines lim (line # ls) (sc, j, n) = Inr res"
  shows "\<exists>sc1. scan_lines lim ls
           (sc1,
            (if startswith line ''JUSTIFICATION:''
             then absorb_justification (strip (replace line ''JUSTIFICATION:'' [])) ls else j),
            (if startswith line ''NEXT_ACTION:''
             then absorb_next_action (strip (replace line ''NEXT_ACTION:'' [])) ls else n)) =
           Inr res"
proof (cases "startswith line ''SCORE:''")
  case True
  then have nj: "\<not> startswith line ''JUSTIFICATION:''" "\<not> startswith line ''NEXT_ACTION:''"
    using markers_distinct by blast+
  show ?thesis
  proof (cases "findall_digits (strip (replace line ''SCORE:'' []))")
    case Nil
    with True nj assms show ?thesis by auto
  next
    case (Cons number rest)
    show ?thesis
    proof (cases "int_py lim number")
      case (Inl e)
      with True Cons assms show ?thesis by simp
    next
      case (Inr v)
      with True Cons nj assms show ?thesis by auto
    qed
  qed
next
  case False
  show ?thesis
  proof (cases "startswith line ''JUSTIFICATION:''")
    case True
    then have "\<not> startswith line ''NEXT_ACTION:''" using markers_distinct by blast
    with True False assms show ?thesis by auto
  next
    case nj: False
    show ?thesis
    proof (cases "startswith line ''NEXT_ACTION:''")
      case True
      with False nj assms show ?thesis by auto
    next
      case nn: False
      with False nj assms show ?thesis by auto
    qed
  qed
qed

lemma scan_lines_prefix:
  "scan_lines lim (pre @ rest) st = Inr res \<Longrightarrow> \<exists>st'. scan_lines lim rest st' = Inr res"
proof (induction pre arbitrary: st)
  case Nil
  then have "scan_lines lim rest st = Inr res" by simp
  then show ?case by (rule exI)
next
  case (Cons line pre)
  obtain sc j n where st: "st = (sc, j, n)" by (cases st) auto
  from Cons.prems obtain st1 where "scan_lines lim (pre @ rest) st1 = Inr res"
    using scan_lines_Cons [of lim line "pre @ rest" sc j n res] unfolding st by auto
  then show ?case by (rule Cons.IH)
qed

lemma scan_lines_keeps_justification:
  "\<forall>l \<in> set ls. \<not> startswith l ''JUSTIFICATION:'' \<Longrightarrow>
   scan_lines lim ls (sc, j, n) = Inr (sc', j', n') \<Longrightarrow> j' = j"
proof (induction ls arbitrary: sc j n)
  case Nil
  then show ?case by simp
next
  case (Cons line ls)
  from Cons.prems(1) have nj: "\<not> startswith line ''JUSTIFICATION:''"
    and rest: "\<forall>l \<in> set ls. \<not> startswith l ''JUSTIFICATION:''" by auto
  from scan_lines_Cons [OF Cons.prems(2)] nj obtain sc1 n1 where
    "scan_lines lim ls (sc1, j, n1) = Inr (sc', j', n')" by auto
  then show ?case using Cons.IH [OF rest] by blast
qed

lemma scan_lines_keeps_next_action:
  "\<forall>l \<in> set ls. \<not> startswith l ''NEXT_ACTION:'' \<Longrightarrow>
   scan_lines lim ls (sc, j, n) = Inr (sc', j', n') \<Longrightarrow> n' = n"
proof (induction ls arbitrary: sc j n)
  case Nil
  then show ?case by simp
next
  case (Cons line ls)
  from Cons.prems(1) have nn: "\<not> startswith line ''NEXT_ACTION:''"
    and rest: "\<forall>l \<in> set ls. \<not> startswith l ''NEXT_ACTION:''" by auto
  from scan_lines_Cons [OF Cons.prems(2)] nn obtain sc1 j1 where
    "scan_lines lim ls (sc1, j1, n) = Inr (sc', j', n')" by auto
  then show ?case using Cons.IH [OF rest] by blast
qed

lemma scan_lines_last_justification:
  assumes "scan_lines lim (pre @ line # ls) st = Inr (sc', j', n')"
    and "startswith line ''JUSTIFICATION:''"
    and "\<forall>l \<in> set ls. \<not> startswith l ''JUSTIFICATION:''"
  shows "j' = absorb_justification (strip (replace line ''JUSTIFICATION:'' [])) ls"
proof -
  from scan_lines_prefix [OF assms(1)] obtain sc j n where
    "scan_lines lim (line # ls) (sc, j, n) = Inr (sc', j', n')"
    by (metis prod_cases3)
  from scan_lines_Cons [OF this] assms(2) obtain sc1 n1 where
    "scan_lines lim ls
       (sc1, absorb_justification (strip (replace line ''JUSTIFICATION:'' [])) ls, n1) =
     Inr (sc', j', n')" by auto
  then show ?thesis by (rule scan_lines_keeps_justification [OF assms(3)])
qed

lemma scan_lines_last_next_action:
  assumes "scan_lines lim (pre @ line # ls) st = Inr (sc', j', n')"
    and "startswith line ''NEXT_ACTION:''"
    and "\<forall>l \<in> set ls. \<not> startswith l ''NEXT_ACTION:''"
  shows "n' = absorb_next_action (strip (replace line ''NEXT_ACTION:'' [])) ls"
proof -
  from scan_lines_prefix [OF assms(1)] obtain sc j n where
    "scan_lines lim (line # ls) (sc, j, n) = Inr (sc', j', n')"
    by (metis prod_cases3)
  from scan_lines_Cons [OF this] assms(2) obtain sc1 j1 where
    "scan_lines lim ls
       (sc1, j1, absorb_next_action (strip (replace line ''NEXT_ACTION:'' [])) ls) =
     Inr (sc', j', n')" by auto
  then show ?thesis by (rule scan_lines_keeps_next_action [OF assms(3)])
qed

lemma scan_lines_no_marker: "no_marker_line ls \<Longrightarrow> scan_lines lim ls st = Inr st"
proof (induction ls)
  case Nil
  then show ?case by simp
next
  case (Cons line ls)
  obtain sc j n where st: "st = (sc, j, n)" by (cases st) auto
  from Cons.prems have "no_marker_line ls" and
    "\<not> startswith line ''SCORE:''" "\<not> startswith line ''JUSTIFICATION:''"
    "\<not> startswith line ''NEXT_ACTION:''"
    by (auto simp: no_marker_line_def)
  then show ?case using Cons.IH unfolding st by simp
qed

lemma set_replace_new: "old \<noteq> [] \<Longrightarrow> set (replace s old new) \<subseteq> set s \<union> set new"
proof (induction s old new rule: replace.induct)
  case (1 s old new)
  show ?case
  proof (cases "s = []")
    case True
    then show ?thesis using "1.prems" by (simp add: replace.simps)
  next
    case False
    show ?thesis
    proof (cases "startswith s old")
      case True
      have "set (replace (drop (length old) s) old new) \<subseteq> set (drop (length old) s) \<union> set new"
        using "1.IH"(1) "1.prems" False True by simp
      moreover have "set (drop (length old) s) \<subseteq> set s"
        by (rule set_drop_subset)
      ultimately have "set (replace (drop (length old) s) old new) \<subseteq> set s \<union> set new"
        by blast
      then show ?thesis using "1.prems" False True by (subst replace.simps) simp
    next
      case nst: False
      have "set (replace (tl s) old new) \<subseteq> set (tl s) \<union> set new"
        using "1.IH"(2) "1.prems" False nst by simp
      moreover have "set (tl s) \<subseteq> set s"
        using False by (cases s) auto
      ultimately have "set (replace (tl s) old new) \<subseteq> set s \<union> set new"
        by blast
      moreover have "hd s \<in> set s" using False by simp
      ultimately show ?thesis using "1.prems" False nst by (subst replace.simps) simp
    qed
  qed
qed

lemma set_replace: "old \<noteq> [] \<Longrightarrow> set (replace s old []) \<subseteq> set s"
  using set_replace_new [of old s "[]"] by simp

lemma set_strip: "set (strip s) \<subseteq> set s"
  by (auto simp: strip_def dest!: set_dropWhileD)

lemma findall_digits_acc_none:
  "\<forall>c \<in> set s. \<not> isdigit c \<Longrightarrow> findall_digits_acc [] s = []"
  by (induction s) auto

lemma findall_digits_none:
  assumes "\<forall>c \<in> set line. \<not> isdigit c"
  shows "findall_digits (strip (replace line ''SCORE:'' [])) = []"
proof -
  have "set (strip (replace line ''SCORE:'' [])) \<subseteq> set line"
    using set_strip [of "replace line ''SCORE:'' []"] set_replace [of "''SCORE:''" line]
    by auto
  with assms have "\<forall>c \<in> set (strip (replace line ''SCORE:'' [])). \<not> isdigit c" by blast
  then show ?thesis unfolding findall_digits_def by (rule findall_digits_acc_none)
qed

lemma scan_lines_keeps_score:
  "\<forall>l \<in> set ls. startswith l ''SCORE:'' \<longrightarrow> (\<forall>c \<in> set l. \<not> isdigit c) \<Longrightarrow>
   \<exists>j' n'. scan_lines lim ls (sc, j, n) = Inr (sc, j', n')"
proof (induction ls arbitrary: j n)
  case Nil
  then show ?case by simp
next
  case (Cons line ls)
  from Cons.prems have rest:
    "\<forall>l \<in> set ls. startswith l ''SCORE:'' \<longrightarrow> (\<forall>c \<in> set l. \<not> isdigit c)" by simp
  show ?case
  proof (cases "startswith line ''SCORE:''")
    case True
    with Cons.prems have "\<forall>c \<in> set line. \<not> isdigit c" by simp
    then have "findall_digits (strip (replace line ''SCORE:'' [])) = []"
      by (rule findall_digits_none)
    with True Cons.IH [OF rest, of j n] show ?thesis by simp
  next
    case False
    show ?thesis
    proof (cases "startswith line ''JUSTIFICATION:''")
      case True
      with False Cons.IH [OF rest] show ?thesis by simp
    next
      case nj: False
      with False Cons.IH [OF rest] show ?thesis by simp
    qed
  qed
qed

lemma split_ws_absorb_justification:
  "split_ws (absorb_justification j ls) =
     split_ws j @ concat (map split_ws (takeWhile (\<lambda>l. \<not> startswith l ''NEXT_ACTION:'') ls))"
proof (induction ls arbitrary: j)
  case Nil
  then show ?case by simp
next
  case (Cons l ls)
  show ?case
    using Cons.IH [of "j @ '' '' @ strip l"] split_ws_append_space [of j "strip l"]
    by (simp add: split_ws_strip)
qed

lemma split_ws_absorb_next_action:
  "split_ws (absorb_next_action n ls) = split_ws n @ concat (map split_ws ls)"
proof (induction ls arbitrary: n)
  case Nil
  then show ?case by simp
next
  case (Cons l ls)
  show ?case
    using Cons.IH [of "n @ '' '' @ strip l"] split_ws_append_space [of n "strip l"]
    by (simp add: split_ws_strip)
qed

lemma length_absorb_justification: "length j \<le> length (absorb_justification j ls)"
proof (induction ls arbitrary: j)
  case Nil
  then show ?case by simp
next
  case (Cons l ls)
  show ?case using Cons.IH [of "j @ '' '' @ strip l"] by simp
qed

lemma length_absorb_next_action: "length n \<le> length (absorb_next_action n ls)"
proof (induction ls arbitrary: n)
  case Nil
  then show ?case by simp
next
  case (Cons l ls)
  show ?case using Cons.IH [of "n @ '' '' @ strip l"] by simp
qed

lemma absorb_justification_Nil:
  "absorb_justification j ls = [] \<longleftrightarrow>
     j = [] \<and> takeWhile (\<lambda>l. \<not> startswith l ''NEXT_ACTION:'') ls = []"
proof (cases ls)
  case Nil
  then show ?thesis by simp
next
  case (Cons l ls')
  show ?thesis
  proof (cases "startswith l ''NEXT_ACTION:''")
    case True
    with Cons show ?thesis by simp
  next
    case False
    have "absorb_justification (j @ '' '' @ strip l) ls' \<noteq> []"
      using length_absorb_justification [of "j @ '' '' @ strip l" ls'] by force
    with False Cons show ?thesis by simp
  qed
qed

lemma absorb_next_action_Nil: "absorb_next_action n ls = [] \<longleftrightarrow> n = [] \<and> ls = []"
proof (cases ls)
  case Nil
  then show ?thesis by simp
next
  case (Cons l ls')
  have "absorb_next_action (n @ '' '' @ strip l) ls' \<noteq> []"
    using length_absorb_next_action [of "n @ '' '' @ strip l" ls'] by force
  with Cons show ?thesis by simp
qed

section \<open>The parser, from the scan to its result\<close>

lemma collapse_default_next_action:
  "take 300 (collapse ''Review lead and determine outreach strategy'') = default_next_action"
  by code_simp

lemma take_collapse_take: "take 500 (collapse (take 400 r)) = collapse (take 400 r)"
proof -
  have "length (collapse (take 400 r)) \<le> length (take 400 r)" by (rule length_collapse)
  then show ?thesis by simp
qed

lemma parse_response_scan:
  "parse_response lim r =
     (case scan_lines lim (response_lines r) (None, [], []) of
        Inl e \<Rightarrow> Inl e
      | Inr (sc, j0, n0) \<Rightarrow>
          Inr (case sc of None \<Rightarrow> 50 | Some v \<Rightarrow> max 0 (min 100 v),
               if j0 = [] then collapse (take 400 r) else take 500 (collapse j0),
               if n0 = [] then default_next_action else take 300 (collapse n0)))"
  by (simp add: parse_response_def Let_def collapse_default_next_action take_collapse_take
      split: sum.splits prod.splits option.splits)

lemma parse_response_InrD:
  assumes "parse_response lim r = Inr (s, j, n)"
  shows "\<exists>sc j0 n0. scan_lines lim (response_lines r) (None, [], []) = Inr (sc, j0, n0) \<and>
           s = (case sc of None \<Rightarrow> 50 | Some v \<Rightarrow> max 0 (min 100 v)) \<and>
           j = (if j0 = [] then collapse (take 400 r) else take 500 (collapse j0)) \<and>
           n = (if n0 = [] then default_next_action else take 300 (collapse n0))"
proof (cases "scan_lines lim (response_lines r) (None, [], [])")
  case (Inl e)
  with assms show ?thesis by (simp add: parse_response_scan)
next
  case (Inr st)
  obtain sc j0 n0 where "st = (sc, j0, n0)" by (cases st) auto
  with Inr assms show ?thesis by (simp add: parse_response_scan)
qed

lemma collapse_cong: "split_ws a = split_ws b \<Longrightarrow> collapse a = collapse b"
  by (simp add: collapse_def)

lemma collapse_absorb_justification:
  "collapse (absorb_justification (strip x) ls) =
     collapse (join '' '' (x # takeWhile (\<lambda>l. \<not> startswith l ''NEXT_ACTION:'') ls))"
  by (rule collapse_cong) (simp add: split_ws_absorb_justification split_ws_join split_ws_strip)

lemma collapse_absorb_next_action:
  "collapse (absorb_next_action (strip x) ls) = collapse (join '' '' (x # ls))"
  by (rule collapse_cong) (simp add: split_ws_absorb_next_action split_ws_join split_ws_strip)

lemma parse_response_justification:
  assumes lines: "response_lines r = pre @ line # ls"
    and marker: "startswith line ''JUSTIFICATION:''"
    and once: "\<not> contains (drop (length ''JUSTIFICATION:'') line) ''JUSTIFICATION:''"
    and last: "\<forall>l \<in> set ls. \<not> startswith l ''JUSTIFICATION:''"
    and parse: "parse_response lim r = Inr (s, j, n)"
  shows "j = (if strip (drop (length ''JUSTIFICATION:'') line) = [] \<and>
                 takeWhile (\<lambda>l. \<not> startswith l ''NEXT_ACTION:'') ls = []
              then collapse (take 400 r)
              else take 500 (collapse (stated_justification line ls)))"
proof -
  from parse_response_InrD [OF parse] obtain sc j0 n0 where
    scan: "scan_lines lim (response_lines r) (None, [], []) = Inr (sc, j0, n0)" and
    j: "j = (if j0 = [] then collapse (take 400 r) else take 500 (collapse j0))"
    by blast
  have "replace line ''JUSTIFICATION:'' [] = drop (length ''JUSTIFICATION:'') line"
    by (rule replace_prefix [OF _ marker once]) simp
  then have j0: "j0 = absorb_justification (strip (drop (length ''JUSTIFICATION:'') line)) ls"
    using scan_lines_last_justification [OF scan [unfolded lines] marker last] by simp
  show ?thesis
    unfolding j j0 absorb_justification_Nil collapse_absorb_justification stated_justification_def
    by (rule refl)
qed

lemma parse_response_next_action:
  assumes lines: "response_lines r = pre @ line # ls"
    and marker: "startswith line ''NEXT_ACTION:''"
    and once: "\<not> contains (drop (length ''NEXT_ACTION:'') line) ''NEXT_ACTION:''"
    and last: "\<forall>l \<in> set ls. \<not> startswith l ''NEXT_ACTION:''"
    and parse: "parse_response lim r = Inr (s, j, n)"
  shows "n = (if strip (drop (length ''NEXT_ACTION:'') line) = [] \<and> ls = []
              then default_next_action
              else take 300 (collapse (stated_next_action line ls)))"
proof -
  from parse_response_InrD [OF parse] obtain sc j0 n0 where
    scan: "scan_lines lim (response_lines r) (None, [], []) = Inr (sc, j0, n0)" and
    n: "n = (if n0 = [] then default_next_action else take 300 (collapse n0))"
    by blast
  have "replace line ''NEXT_ACTION:'' [] = drop (length ''NEXT_ACTION:'') line"
    by (rule replace_prefix [OF _ marker once]) simp
  then have n0: "n0 = absorb_next_action (strip (drop (length ''NEXT_ACTION:'') line)) ls"
    using scan_lines_last_next_action [OF scan [unfolded lines] marker last] by simp
  show ?thesis
    unfolding n n0 absorb_next_action_Nil collapse_absorb_next_action stated_next_action_def
    by (rule refl)
qed

lemma split_ws_blank: "strip l = [] \<Longrightarrow> split_ws l = []"
  using split_ws_strip [of l] by (simp add: split_ws_Nil)

lemma collapse_join_blank:
  assumes "\<forall>l \<in> set xs. strip l = []"
  shows "collapse (join '' '' xs) = []"
proof -
  have c: "concat (map split_ws xs) = []"
    using assms by (simp add: split_ws_blank)
  show ?thesis
    unfolding collapse_def split_ws_join c by simp
qed

lemma parse_response_last_justification:
  assumes lines: "response_lines r = pre @ line # ls"
    and marker: "startswith line ''JUSTIFICATION:''"
    and last: "\<forall>l \<in> set ls. \<not> startswith l ''JUSTIFICATION:''"
    and parse: "parse_response lim r = Inr (s, j, n)"
  shows "j = (if strip (replace line ''JUSTIFICATION:'' []) = [] \<and>
                 takeWhile (\<lambda>l. \<not> startswith l ''NEXT_ACTION:'') ls = []
              then collapse (take 400 r)
              else take 500 (collapse (join '' '' (replace line ''JUSTIFICATION:'' [] #
                     takeWhile (\<lambda>l. \<not> startswith l ''NEXT_ACTION:'') ls))))"
proof -
  from parse_response_InrD [OF parse] obtain sc j0 n0 where
    scan: "scan_lines lim (response_lines r) (None, [], []) = Inr (sc, j0, n0)" and
    j: "j = (if j0 = [] then collapse (take 400 r) else take 500 (collapse j0))"
    by blast
  have j0: "j0 = absorb_justification (strip (replace line ''JUSTIFICATION:'' [])) ls"
    by (rule scan_lines_last_justification [OF scan [unfolded lines] marker last])
  show ?thesis
    unfolding j j0 absorb_justification_Nil collapse_absorb_justification
    by (rule refl)
qed

lemma parse_response_blank_justification:
  assumes lines: "response_lines r = pre @ line # ls"
    and marker: "startswith line ''JUSTIFICATION:''"
    and last: "\<forall>l \<in> set ls. \<not> startswith l ''JUSTIFICATION:''"
    and parse: "parse_response lim r = Inr (s, j, n)"
    and blank: "strip (replace line ''JUSTIFICATION:'' []) = []"
    and some: "takeWhile (\<lambda>l. \<not> startswith l ''NEXT_ACTION:'') ls \<noteq> []"
    and blanks: "\<forall>l \<in> set (takeWhile (\<lambda>l. \<not> startswith l ''NEXT_ACTION:'') ls). strip l = []"
  shows "j = []"
proof -
  have "collapse (join '' '' (replace line ''JUSTIFICATION:'' [] #
          takeWhile (\<lambda>l. \<not> startswith l ''NEXT_ACTION:'') ls)) = []"
    by (rule collapse_join_blank) (use blank blanks in simp)
  with parse_response_last_justification [OF lines marker last parse] some
  show ?thesis by simp
qed

lemma parse_response_last_next_action:
  assumes lines: "response_lines r = pre @ line # ls"
    and marker: "startswith line ''NEXT_ACTION:''"
    and last: "\<forall>l \<in> set ls. \<not> startswith l ''NEXT_ACTION:''"
    and parse: "parse_response lim r = Inr (s, j, n)"
  shows "n = (if strip (replace line ''NEXT_ACTION:'' []) = [] \<and> ls = []
              then default_next_action
              else take 300 (collapse (join '' '' (replace line ''NEXT_ACTION:'' [] # ls))))"
proof -
  from parse_response_InrD [OF parse] obtain sc j0 n0 where
    scan: "scan_lines lim (response_lines r) (None, [], []) = Inr (sc, j0, n0)" and
    n: "n = (if n0 = [] then default_next_action else take 300 (collapse n0))"
    by blast
  have n0: "n0 = absorb_next_action (strip (replace line ''NEXT_ACTION:'' [])) ls"
    by (rule scan_lines_last_next_action [OF scan [unfolded lines] marker last])
  show ?thesis
    unfolding n n0 absorb_next_action_Nil collapse_absorb_next_action
    by (rule refl)
qed

section \<open>The defaults of the parser: C3\<close>

text \<open>
  C3, as the code has it. The lines are those the parser scans: the response without its
  leading and trailing whitespace, split at the newlines. When none of them starts with
  \<open>SCORE:\<close>, \<open>JUSTIFICATION:\<close> or \<open>NEXT_ACTION:\<close>, the parser returns the score 50,
  the first 400 characters of the raw response with their whitespace collapsed, and the
  fixed next action. Each default also applies alone, when the text its marker gathers is
  the empty string: the score is 50 when no \<open>SCORE:\<close> line has a digit; the
  justification is the default when no line starts with \<open>JUSTIFICATION:\<close>, and, of the
  last line that does, exactly when nothing but whitespace is left of the line without
  \<open>JUSTIFICATION:\<close> and no line is absorbed, the line being the last or the one before
  a \<open>NEXT_ACTION:\<close> line; the next action is the default when no line starts with
  \<open>NEXT_ACTION:\<close>, and, of the last line that does, exactly when nothing but
  whitespace is left of the line without \<open>NEXT_ACTION:\<close> and no line follows. A
  \<open>JUSTIFICATION:\<close> line that yields nothing but absorbs a line, be it blank, gets no
  default: when all it gathers is whitespace, the justification is the empty string.
\<close>

theorem parse_response_defaults:
  "(no_marker_line (response_lines r) \<longrightarrow>
      parse_response lim r = Inr (50, collapse (take 400 r), default_next_action)) \<and>
   ((\<forall>l \<in> set (response_lines r). startswith l ''SCORE:'' \<longrightarrow> (\<forall>c \<in> set l. \<not> isdigit c)) \<longrightarrow>
      (\<exists>j n. parse_response lim r = Inr (50, j, n))) \<and>
   ((\<forall>l \<in> set (response_lines r). \<not> startswith l ''JUSTIFICATION:'') \<and>
    parse_response lim r = Inr (s, j, n) \<longrightarrow> j = collapse (take 400 r)) \<and>
   ((\<forall>l \<in> set (response_lines r). \<not> startswith l ''NEXT_ACTION:'') \<and>
    parse_response lim r = Inr (s, j, n) \<longrightarrow> n = default_next_action) \<and>
   (response_lines r = pre @ line # ls \<and> startswith line ''JUSTIFICATION:'' \<and>
    (\<forall>l \<in> set ls. \<not> startswith l ''JUSTIFICATION:'') \<and>
    parse_response lim r = Inr (s, j, n) \<longrightarrow>
      j = (if strip (replace line ''JUSTIFICATION:'' []) = [] \<and>
              takeWhile (\<lambda>l. \<not> startswith l ''NEXT_ACTION:'') ls = []
           then collapse (take 400 r)
           else take 500 (collapse (join '' '' (replace line ''JUSTIFICATION:'' [] #
                  takeWhile (\<lambda>l. \<not> startswith l ''NEXT_ACTION:'') ls)))) \<and>
      (strip (replace line ''JUSTIFICATION:'' []) = [] \<and>
       takeWhile (\<lambda>l. \<not> startswith l ''NEXT_ACTION:'') ls \<noteq> [] \<and>
       (\<forall>l \<in> set (takeWhile (\<lambda>l. \<not> startswith l ''NEXT_ACTION:'') ls). strip l = []) \<longrightarrow>
         j = [])) \<and>
   (response_lines r = pre' @ line' # ls' \<and> startswith line' ''NEXT_ACTION:'' \<and>
    (\<forall>l \<in> set ls'. \<not> startswith l ''NEXT_ACTION:'') \<and>
    parse_response lim r = Inr (s, j, n) \<longrightarrow>
      n = (if strip (replace line' ''NEXT_ACTION:'' []) = [] \<and> ls' = []
           then default_next_action
           else take 300 (collapse (join '' '' (replace line' ''NEXT_ACTION:'' [] # ls')))))"
proof -
  have a: "no_marker_line (response_lines r) \<longrightarrow>
      parse_response lim r = Inr (50, collapse (take 400 r), default_next_action)"
    by (simp add: parse_response_scan scan_lines_no_marker)
  have b: "(\<forall>l \<in> set (response_lines r). startswith l ''SCORE:'' \<longrightarrow> (\<forall>c \<in> set l. \<not> isdigit c)) \<longrightarrow>
      (\<exists>j n. parse_response lim r = Inr (50, j, n))"
  proof
    assume "\<forall>l \<in> set (response_lines r). startswith l ''SCORE:'' \<longrightarrow> (\<forall>c \<in> set l. \<not> isdigit c)"
    from scan_lines_keeps_score [OF this, of lim None "[]" "[]"] obtain j' n' where
      "scan_lines lim (response_lines r) (None, [], []) = Inr (None, j', n')" by blast
    then show "\<exists>j n. parse_response lim r = Inr (50, j, n)"
      by (simp add: parse_response_scan)
  qed
  have c: "(\<forall>l \<in> set (response_lines r). \<not> startswith l ''JUSTIFICATION:'') \<and>
    parse_response lim r = Inr (s, j, n) \<longrightarrow> j = collapse (take 400 r)"
  proof
    assume h: "(\<forall>l \<in> set (response_lines r). \<not> startswith l ''JUSTIFICATION:'') \<and>
      parse_response lim r = Inr (s, j, n)"
    then obtain sc j0 n0 where
      scan: "scan_lines lim (response_lines r) (None, [], []) = Inr (sc, j0, n0)" and
      j: "j = (if j0 = [] then collapse (take 400 r) else take 500 (collapse j0))"
      using parse_response_InrD by blast
    have "j0 = []" using scan_lines_keeps_justification [OF _ scan] h by blast
    with j show "j = collapse (take 400 r)" by simp
  qed
  have d: "(\<forall>l \<in> set (response_lines r). \<not> startswith l ''NEXT_ACTION:'') \<and>
    parse_response lim r = Inr (s, j, n) \<longrightarrow> n = default_next_action"
  proof
    assume h: "(\<forall>l \<in> set (response_lines r). \<not> startswith l ''NEXT_ACTION:'') \<and>
      parse_response lim r = Inr (s, j, n)"
    then obtain sc j0 n0 where
      scan: "scan_lines lim (response_lines r) (None, [], []) = Inr (sc, j0, n0)" and
      n: "n = (if n0 = [] then default_next_action else take 300 (collapse n0))"
      using parse_response_InrD by blast
    have "n0 = []" using scan_lines_keeps_next_action [OF _ scan] h by blast
    with n show "n = default_next_action" by simp
  qed
  have e: "response_lines r = pre @ line # ls \<and> startswith line ''JUSTIFICATION:'' \<and>
    (\<forall>l \<in> set ls. \<not> startswith l ''JUSTIFICATION:'') \<and>
    parse_response lim r = Inr (s, j, n) \<longrightarrow>
      j = (if strip (replace line ''JUSTIFICATION:'' []) = [] \<and>
              takeWhile (\<lambda>l. \<not> startswith l ''NEXT_ACTION:'') ls = []
           then collapse (take 400 r)
           else take 500 (collapse (join '' '' (replace line ''JUSTIFICATION:'' [] #
                  takeWhile (\<lambda>l. \<not> startswith l ''NEXT_ACTION:'') ls)))) \<and>
      (strip (replace line ''JUSTIFICATION:'' []) = [] \<and>
       takeWhile (\<lambda>l. \<not> startswith l ''NEXT_ACTION:'') ls \<noteq> [] \<and>
       (\<forall>l \<in> set (takeWhile (\<lambda>l. \<not> startswith l ''NEXT_ACTION:'') ls). strip l = []) \<longrightarrow>
         j = [])"
    using parse_response_last_justification [of r pre line ls lim s j n]
      parse_response_blank_justification [of r pre line ls lim s j n]
    by blast
  have f: "response_lines r = pre' @ line' # ls' \<and> startswith line' ''NEXT_ACTION:'' \<and>
    (\<forall>l \<in> set ls'. \<not> startswith l ''NEXT_ACTION:'') \<and>
    parse_response lim r = Inr (s, j, n) \<longrightarrow>
      n = (if strip (replace line' ''NEXT_ACTION:'' []) = [] \<and> ls' = []
           then default_next_action
           else take 300 (collapse (join '' '' (replace line' ''NEXT_ACTION:'' [] # ls'))))"
    using parse_response_last_next_action [of r pre' line' ls' lim s j n]
    by blast
  from a b c d e f show ?thesis by blast
qed

lemma no_marker_example: "no_marker_line (response_lines ''A  solid lead, worth a call.'')"
  by code_simp

lemma collapse_example:
  "collapse (take 400 ''A  solid lead, worth a call.'') = ''A solid lead, worth a call.''"
  by code_simp

lemma blank_example:
  "response_lines blank_justification_response =
     [] @ ''JUSTIFICATION:'' # [[], ''NEXT_ACTION: call'']"
  "startswith ''JUSTIFICATION:'' ''JUSTIFICATION:''"
  "\<forall>l \<in> set [[], ''NEXT_ACTION: call'']. \<not> startswith l ''JUSTIFICATION:''"
  "parse_response 4300 blank_justification_response = Inr (50, [], ''call'')"
  "strip (replace ''JUSTIFICATION:'' ''JUSTIFICATION:'' []) = []"
  "takeWhile (\<lambda>l. \<not> startswith l ''NEXT_ACTION:'') [[], ''NEXT_ACTION: call''] = [[]]"
  "strip [] = []"
  by code_simp+

theorem parse_response_defaults_witness:
  "no_marker_line (response_lines ''A  solid lead, worth a call.'') \<and>
   parse_response 4300 ''A  solid lead, worth a call.'' =
     Inr (50, ''A solid lead, worth a call.'', ''Review lead and determine outreach strategy'') \<and>
   response_lines blank_justification_response =
     [] @ ''JUSTIFICATION:'' # [[], ''NEXT_ACTION: call''] \<and>
   startswith ''JUSTIFICATION:'' ''JUSTIFICATION:'' \<and>
   strip (replace ''JUSTIFICATION:'' ''JUSTIFICATION:'' []) = [] \<and>
   takeWhile (\<lambda>l. \<not> startswith l ''NEXT_ACTION:'') [[], ''NEXT_ACTION: call''] = [[]] \<and>
   parse_response 4300 blank_justification_response = Inr (50, [], ''call'') \<and>
   take 500 (collapse (join '' '' (replace ''JUSTIFICATION:'' ''JUSTIFICATION:'' [] #
     takeWhile (\<lambda>l. \<not> startswith l ''NEXT_ACTION:'') [[], ''NEXT_ACTION: call'']))) = []"
proof -
  have "parse_response 4300 ''A  solid lead, worth a call.'' =
          Inr (50, collapse (take 400 ''A  solid lead, worth a call.''), default_next_action)"
    by (rule parse_response_defaults [of "''A  solid lead, worth a call.''" 4300 0 "[]" "[]"
          "[]" "[]" "[]" "[]" "[]" "[]", THEN conjunct1, THEN mp, OF no_marker_example])
  then have 1: "parse_response 4300 ''A  solid lead, worth a call.'' =
     Inr (50, ''A solid lead, worth a call.'', ''Review lead and determine outreach strategy'')"
    unfolding collapse_example default_next_action_def .
  have h: "response_lines blank_justification_response =
      [] @ ''JUSTIFICATION:'' # [[], ''NEXT_ACTION: call''] \<and>
    startswith ''JUSTIFICATION:'' ''JUSTIFICATION:'' \<and>
    (\<forall>l \<in> set [[], ''NEXT_ACTION: call'']. \<not> startswith l ''JUSTIFICATION:'') \<and>
    parse_response 4300 blank_justification_response = Inr (50, [], ''call'')"
    using blank_example(1-4) by blast
  have "[] = (if strip (replace ''JUSTIFICATION:'' ''JUSTIFICATION:'' []) = [] \<and>
              takeWhile (\<lambda>l. \<not> startswith l ''NEXT_ACTION:'') [[], ''NEXT_ACTION: call''] = []
           then collapse (take 400 blank_justification_response)
           else take 500 (collapse (join '' '' (replace ''JUSTIFICATION:'' ''JUSTIFICATION:'' [] #
                  takeWhile (\<lambda>l. \<not> startswith l ''NEXT_ACTION:'') [[], ''NEXT_ACTION: call'']))))"
    by (rule parse_response_defaults [of blank_justification_response 4300 50 "[]" "''call''"
          "[]" "''JUSTIFICATION:''" "[[], ''NEXT_ACTION: call'']" "[]" "[]" "[]",
          THEN conjunct2, THEN conjunct2, THEN conjunct2, THEN conjunct2, THEN conjunct1,
          THEN mp, OF h, THEN conjunct1])
  then have 2: "take 500 (collapse (join '' '' (replace ''JUSTIFICATION:'' ''JUSTIFICATION:'' [] #
     takeWhile (\<lambda>l. \<not> startswith l ''NEXT_ACTION:'') [[], ''NEXT_ACTION: call'']))) = []"
    unfolding blank_example(6) by simp
  from no_marker_example 1 blank_example(1,2,5,6,4) 2 show ?thesis by blast
qed

text \<open>
  C3 as stated fails twice. With the lines of the raw response, it fails at the response
  \<open>SCORE: 80\<close> after one space: its only line starts with a space, not with a marker,
  and the parser, which strips the response first, returns the score 80. And a default
  does not apply whenever a marker yields no value: in the response of a bare
  \<open>JUSTIFICATION:\<close> line, an empty line and \<open>NEXT_ACTION: call\<close>, the marker yields
  nothing, and the justification is the empty string, not the start of the response.
\<close>

theorem parse_response_defaults_counterexample:
  "no_marker_line (split '' SCORE: 80'' (CHR 0x0A)) \<and>
   parse_response 4300 '' SCORE: 80'' =
     Inr (80, ''SCORE: 80'', ''Review lead and determine outreach strategy'') \<and>
   response_lines blank_justification_response =
     [''JUSTIFICATION:'', [], ''NEXT_ACTION: call''] \<and>
   strip (replace ''JUSTIFICATION:'' ''JUSTIFICATION:'' []) = [] \<and>
   parse_response 4300 blank_justification_response = Inr (50, [], ''call'') \<and>
   collapse (take 400 blank_justification_response) = ''JUSTIFICATION: NEXT_ACTION: call''"
  by code_simp

section \<open>What the markers absorb: C4\<close>

text \<open>
  C4, as the code has it. Take the last line that starts with \<open>JUSTIFICATION:\<close>, with
  no second \<open>JUSTIFICATION:\<close> inside it. The justification is that line without its
  prefix, followed by every later line up to the first that starts with \<open>NEXT_ACTION:\<close>,
  joined by spaces, then with its whitespace collapsed and cut to 500 characters; when the
  line has nothing but whitespace after its prefix and no line is absorbed, it is the
  default. Take the last line that starts with \<open>NEXT_ACTION:\<close>, with no second
  \<open>NEXT_ACTION:\<close> inside it. The next action is that line without its prefix followed by
  every remaining line of the response, joined by spaces, collapsed and cut to 300
  characters; when there is only whitespace after the prefix and no line follows, it is
  the default.
\<close>

theorem parse_response_markers:
  "(response_lines r = pre @ line # ls \<and> startswith line ''JUSTIFICATION:'' \<and>
    \<not> contains (drop (length ''JUSTIFICATION:'') line) ''JUSTIFICATION:'' \<and>
    (\<forall>l \<in> set ls. \<not> startswith l ''JUSTIFICATION:'') \<and>
    parse_response lim r = Inr (s, j, n) \<longrightarrow>
      j = (if strip (drop (length ''JUSTIFICATION:'') line) = [] \<and>
              takeWhile (\<lambda>l. \<not> startswith l ''NEXT_ACTION:'') ls = []
           then collapse (take 400 r)
           else take 500 (collapse (stated_justification line ls)))) \<and>
   (response_lines r = pre' @ line' # ls' \<and> startswith line' ''NEXT_ACTION:'' \<and>
    \<not> contains (drop (length ''NEXT_ACTION:'') line') ''NEXT_ACTION:'' \<and>
    (\<forall>l \<in> set ls'. \<not> startswith l ''NEXT_ACTION:'') \<and>
    parse_response lim r = Inr (s, j, n) \<longrightarrow>
      n = (if strip (drop (length ''NEXT_ACTION:'') line') = [] \<and> ls' = []
           then default_next_action
           else take 300 (collapse (stated_next_action line' ls'))))"
  using parse_response_justification [of r pre line ls lim s j n]
    parse_response_next_action [of r pre' line' ls' lim s j n]
  by blast

lemma example_response_lines:
  "response_lines example_response =
     [''SCORE: 85''] @ ''JUSTIFICATION: good  site'' #
     ['' more text'', ''NEXT_ACTION: call them'', ''thanks'']"
  "response_lines example_response =
     [''SCORE: 85'', ''JUSTIFICATION: good  site'', '' more text''] @
     ''NEXT_ACTION: call them'' # [''thanks'']"
  by code_simp+

lemma example_response_parse:
  "parse_response 4300 example_response = Inr (85, ''good site more text'', ''call them thanks'')"
  by code_simp

lemma example_justification_hyps:
  "startswith ''JUSTIFICATION: good  site'' ''JUSTIFICATION:''"
  "\<not> contains (drop (length ''JUSTIFICATION:'') ''JUSTIFICATION: good  site'') ''JUSTIFICATION:''"
  "\<forall>l \<in> set ['' more text'', ''NEXT_ACTION: call them'', ''thanks'']. \<not> startswith l ''JUSTIFICATION:''"
  by code_simp+

lemma example_next_action_hyps:
  "startswith ''NEXT_ACTION: call them'' ''NEXT_ACTION:''"
  "\<not> contains (drop (length ''NEXT_ACTION:'') ''NEXT_ACTION: call them'') ''NEXT_ACTION:''"
  "\<forall>l \<in> set [''thanks'']. \<not> startswith l ''NEXT_ACTION:''"
  by code_simp+

lemma example_yields:
  "\<not> (strip (drop (length ''JUSTIFICATION:'') ''JUSTIFICATION: good  site'') = [] \<and>
      takeWhile (\<lambda>l. \<not> startswith l ''NEXT_ACTION:'')
        ['' more text'', ''NEXT_ACTION: call them'', ''thanks''] = [])"
  "\<not> (strip (drop (length ''NEXT_ACTION:'') ''NEXT_ACTION: call them'') = [] \<and>
      [''thanks''] = [])"
  by code_simp+

theorem parse_response_markers_witness:
  "parse_response 4300 example_response = Inr (85, ''good site more text'', ''call them thanks'') \<and>
   ''good site more text'' =
     take 500 (collapse (stated_justification ''JUSTIFICATION: good  site''
       ['' more text'', ''NEXT_ACTION: call them'', ''thanks''])) \<and>
   ''call them thanks'' =
     take 300 (collapse (stated_next_action ''NEXT_ACTION: call them'' [''thanks'']))"
proof -
  note inst = parse_response_markers [of example_response "[''SCORE: 85'']"
      "''JUSTIFICATION: good  site''" "['' more text'', ''NEXT_ACTION: call them'', ''thanks'']"
      4300 85 "''good site more text''" "''call them thanks''"
      "[''SCORE: 85'', ''JUSTIFICATION: good  site'', '' more text'']"
      "''NEXT_ACTION: call them''" "[''thanks'']"]
  have hj: "response_lines example_response =
      [''SCORE: 85''] @ ''JUSTIFICATION: good  site'' #
        ['' more text'', ''NEXT_ACTION: call them'', ''thanks''] \<and>
    startswith ''JUSTIFICATION: good  site'' ''JUSTIFICATION:'' \<and>
    \<not> contains (drop (length ''JUSTIFICATION:'') ''JUSTIFICATION: good  site'') ''JUSTIFICATION:'' \<and>
    (\<forall>l \<in> set ['' more text'', ''NEXT_ACTION: call them'', ''thanks''].
        \<not> startswith l ''JUSTIFICATION:'') \<and>
    parse_response 4300 example_response =
      Inr (85, ''good site more text'', ''call them thanks'')"
    using example_response_lines(1) example_justification_hyps example_response_parse
    by blast
  have hn: "response_lines example_response =
      [''SCORE: 85'', ''JUSTIFICATION: good  site'', '' more text''] @
        ''NEXT_ACTION: call them'' # [''thanks''] \<and>
    startswith ''NEXT_ACTION: call them'' ''NEXT_ACTION:'' \<and>
    \<not> contains (drop (length ''NEXT_ACTION:'') ''NEXT_ACTION: call them'') ''NEXT_ACTION:'' \<and>
    (\<forall>l \<in> set [''thanks'']. \<not> startswith l ''NEXT_ACTION:'') \<and>
    parse_response 4300 example_response =
      Inr (85, ''good site more text'', ''call them thanks'')"
    using example_response_lines(2) example_next_action_hyps example_response_parse
    by blast
  have j: "''good site more text'' =
     take 500 (collapse (stated_justification ''JUSTIFICATION: good  site''
       ['' more text'', ''NEXT_ACTION: call them'', ''thanks'']))"
    using inst [THEN conjunct1, THEN mp, OF hj] by (simp only: example_yields(1) if_False)
  have n: "''call them thanks'' =
     take 300 (collapse (stated_next_action ''NEXT_ACTION: call them'' [''thanks'']))"
    using inst [THEN conjunct2, THEN mp, OF hn] by (simp only: example_yields(2) if_False)
  from example_response_parse j n show ?thesis by blast
qed

text \<open>
  C4 as stated fails where a marker comes twice. Of two \<open>JUSTIFICATION:\<close> lines the
  first is stated to yield \<open>a JUSTIFICATION: b\<close>, and the parser returns \<open>b\<close>, what the
  second yields; likewise of two \<open>NEXT_ACTION:\<close> lines. And a \<open>NEXT_ACTION:\<close> inside a
  \<open>NEXT_ACTION:\<close> line is removed with the prefix.
\<close>

theorem parse_response_markers_counterexample:
  "response_lines (''JUSTIFICATION: a'' @ [CHR 0x0A] @ ''JUSTIFICATION: b'') =
     [''JUSTIFICATION: a'', ''JUSTIFICATION: b''] \<and>
   startswith ''JUSTIFICATION: a'' ''JUSTIFICATION:'' \<and>
   take 500 (collapse (stated_justification ''JUSTIFICATION: a'' [''JUSTIFICATION: b''])) =
     ''a JUSTIFICATION: b'' \<and>
   parse_response 4300 (''JUSTIFICATION: a'' @ [CHR 0x0A] @ ''JUSTIFICATION: b'') =
     Inr (50, ''b'', ''Review lead and determine outreach strategy'') \<and>
   response_lines (''NEXT_ACTION: a'' @ [CHR 0x0A] @ ''NEXT_ACTION: b'') =
     [''NEXT_ACTION: a'', ''NEXT_ACTION: b''] \<and>
   startswith ''NEXT_ACTION: a'' ''NEXT_ACTION:'' \<and>
   take 300 (collapse (stated_next_action ''NEXT_ACTION: a'' [''NEXT_ACTION: b''])) =
     ''a NEXT_ACTION: b'' \<and>
   parse_response 4300 (''NEXT_ACTION: a'' @ [CHR 0x0A] @ ''NEXT_ACTION: b'') =
     Inr (50, ''NEXT_ACTION: a NEXT_ACTION: b'', ''b'') \<and>
   response_lines ''NEXT_ACTION: call NEXT_ACTION: now'' =
     [''NEXT_ACTION: call NEXT_ACTION: now''] \<and>
   take 300 (collapse (stated_next_action ''NEXT_ACTION: call NEXT_ACTION: now'' [])) =
     ''call NEXT_ACTION: now'' \<and>
   parse_response 4300 ''NEXT_ACTION: call NEXT_ACTION: now'' =
     Inr (50, ''NEXT_ACTION: call NEXT_ACTION: now'', ''call now'')"
  by code_simp

section \<open>A response the parser does not parse\<close>

lemma findall_digits_acc_nines:
  "w @ replicate k (CHR ''9'') \<noteq> [] \<Longrightarrow>
   findall_digits_acc w (replicate k (CHR ''9'')) = [w @ replicate k (CHR ''9'')]"
proof (induction k arbitrary: w)
  case 0
  then show ?case by simp
next
  case (Suc k)
  have "findall_digits_acc (w @ ''9'') (replicate k (CHR ''9'')) =
          [(w @ ''9'') @ replicate k (CHR ''9'')]"
    by (rule Suc.IH) simp
  then show ?case by (simp add: isdigit_def)
qed

lemma strip_id:
  assumes "s \<noteq> []" "\<not> isspace (hd s)" "\<not> isspace (last s)"
  shows "strip s = s"
proof -
  have 1: "dropWhile isspace s = s" using assms(1,2) by (cases s) auto
  obtain x xs where r: "rev s = x # xs" using assms(1) by (cases "rev s") auto
  then have "x = last s" by (metis hd_rev list.sel(1))
  then have "dropWhile isspace (x # xs) = x # xs" using assms(3) by simp
  then have 2: "dropWhile isspace (rev s) = rev s" unfolding r .
  show ?thesis by (simp add: strip_def 1 2)
qed

lemma strip_score_nines:
  "strip (''SCORE: '' @ replicate (Suc k) (CHR ''9'')) = ''SCORE: '' @ replicate (Suc k) (CHR ''9'')"
  "strip ('' '' @ replicate (Suc k) (CHR ''9'')) = replicate (Suc k) (CHR ''9'')"
proof -
  have nine: "\<not> isspace (CHR ''9'')" "\<not> isspace (CHR ''S'')" by (simp_all add: isspace_def)
  show "strip (''SCORE: '' @ replicate (Suc k) (CHR ''9'')) =
          ''SCORE: '' @ replicate (Suc k) (CHR ''9'')"
    by (rule strip_id) (simp_all add: nine del: replicate_Suc)
  have "strip (replicate (Suc k) (CHR ''9'')) = replicate (Suc k) (CHR ''9'')"
    by (rule strip_id) (simp_all add: nine del: replicate_Suc)
  moreover have "strip ('' '' @ replicate (Suc k) (CHR ''9'')) = strip (replicate (Suc k) (CHR ''9''))"
    by (simp add: strip_def isspace_def del: replicate_Suc)
  ultimately show "strip ('' '' @ replicate (Suc k) (CHR ''9'')) = replicate (Suc k) (CHR ''9'')"
    by simp
qed

lemma not_contains_score: "\<not> contains ('' '' @ replicate k (CHR ''9'')) ''SCORE:''"
proof
  assume "contains ('' '' @ replicate k (CHR ''9'')) ''SCORE:''"
  then obtain a b where "'' '' @ replicate k (CHR ''9'') = a @ ''SCORE:'' @ b"
    unfolding contains_iff by blast
  then have "CHR ''S'' \<in> set ('' '' @ replicate k (CHR ''9''))"
    by (metis append_Cons in_set_conv_decomp)
  then show False by auto
qed

text \<open>
  With a limit on the digits of an integer (4300 is usual), a \<open>SCORE:\<close> line with one
  digit more makes \<open>int()\<close> raise: the parser, and with it the scoring request, fails.
\<close>

lemma parse_response_too_many_digits:
  assumes "0 < lim"
  shows "parse_response lim (''SCORE: '' @ replicate (Suc lim) (CHR ''9'')) = Inl ValueError"
proof -
  let ?r = "''SCORE: '' @ replicate (Suc lim) (CHR ''9'')"
  have "CHR 0x0A \<notin> set ?r" by auto
  then have "split_acc (CHR 0x0A) [] ?r = [[] @ ?r]" by (rule split_acc_no_sep)
  then have lines: "response_lines ?r = [?r]"
    unfolding response_lines_def strip_score_nines split_def by simp
  have st: "startswith ?r ''SCORE:''"
    by (simp add: startswith_def)
  have "replace ?r ''SCORE:'' [] = drop (length ''SCORE:'') ?r"
    by (rule replace_prefix [OF _ st]) (use not_contains_score [of "Suc lim"] in simp_all)
  then have rep: "replace ?r ''SCORE:'' [] = '' '' @ replicate (Suc lim) (CHR ''9'')"
    by simp
  have digits: "findall_digits (strip (replace ?r ''SCORE:'' [])) = [replicate (Suc lim) (CHR ''9'')]"
    unfolding rep strip_score_nines findall_digits_def
    using findall_digits_acc_nines [of "[]" "Suc lim"] by simp
  have "int_py lim (replicate (Suc lim) (CHR ''9'')) = Inl ValueError"
    using assms by (simp add: int_py_def)
  with st digits have "scan_lines lim [?r] (None, [], []) = Inl ValueError"
    by simp
  with lines show ?thesis
    by (simp add: parse_response_scan)
qed

end
